theory Spec2Isabelle
  imports Main "HOL-Library.FSet" "HOL-Library.AList" "HOL-Library.Sublist"
begin

section \<open>Values and strings\<close>

text \<open>
  A cell of a mapping table as \<^verbatim>\<open>pandas.read_csv\<close> hands it to the program: a string, an
  integer, a boolean, the missing value NaN, or another floating-point number, which is
  given by the text that \<^verbatim>\<open>str\<close> prints for it.
\<close>

datatype pyval = PStr string | PInt int | PBool bool | PNaN | PFloat string

text \<open>Decimal rendering of a natural number, as \<^verbatim>\<open>str\<close> and f-strings print a counter.\<close>

definition digit_char :: "nat \<Rightarrow> char" where
  "digit_char d = char_of (48 + d)"

fun str_nat :: "nat \<Rightarrow> string" where
  "str_nat n = (if n < 10 then [digit_char n] else str_nat (n div 10) @ [digit_char (n mod 10)])"

declare str_nat.simps [simp del]

definition str_int :: "int \<Rightarrow> string" where
  "str_int i = (if i < 0 then CHR ''-'' # str_nat (nat (- i)) else str_nat (nat i))"

text \<open>Python's \<^verbatim>\<open>str(x)\<close> on a table cell.\<close>

fun py_str :: "pyval \<Rightarrow> string" where
  "py_str (PStr s) = s"
| "py_str (PInt i) = str_int i"
| "py_str (PBool b) = (if b then ''True'' else ''False'')"
| "py_str PNaN = ''nan''"
| "py_str (PFloat printed) = printed"

section \<open>Name sanitizer\<close>

text \<open>
  The character class of the regular expression \<^verbatim>\<open>[<>:"/\\|?*]\<close>: the nine characters
  \<^verbatim>\<open>< > : " / \ | ? *\<close>.
\<close>

definition reserved_chars :: "char set" where
  "reserved_chars =
     {CHR ''<'', CHR ''>'', CHR '':'', CHR 0x22, CHR ''/'', CHR 0x5C, CHR ''|'', CHR ''?'', CHR ''*''}"

text \<open>\<^verbatim>\<open>re.sub(cls, '_', s)\<close> for a one-character class: every match becomes an underscore.\<close>

definition re_sub_class :: "char set \<Rightarrow> char \<Rightarrow> string \<Rightarrow> string" where
  "re_sub_class cls r s = map (\<lambda>c. if c \<in> cls then r else c) s"

definition sanitize_filename :: "pyval \<Rightarrow> string" where
  "sanitize_filename name = re_sub_class reserved_chars (CHR ''_'') (py_str name)"

section \<open>Paths\<close>

text \<open>
  A \<^verbatim>\<open>pathlib.Path\<close> is its list of components below the root of the file system. A
  component never contains the separator. Two paths are equal when their components are.
\<close>

type_synonym path = "string list"

definition path_name :: "path \<Rightarrow> string" where
  "path_name p = (if p = [] then [] else last p)"

definition path_parent :: "path \<Rightarrow> path" where
  "path_parent p = butlast p"

text \<open>\<^verbatim>\<open>s.rfind(c)\<close>: the greatest index holding \<open>c\<close>; \<open>None\<close> stands for Python's -1.\<close>

fun rfind :: "char \<Rightarrow> string \<Rightarrow> nat option" where
  "rfind c [] = None"
| "rfind c (x # xs) =
     (case rfind c xs of
        Some i \<Rightarrow> Some (Suc i)
      | None \<Rightarrow> if x = c then Some 0 else None)"

text \<open>
  \<^verbatim>\<open>Path.suffix\<close> and \<^verbatim>\<open>Path.stem\<close>: the name is split at its last dot, unless that dot
  is the first or the last character of the name.
\<close>

definition path_suffix :: "path \<Rightarrow> string" where
  "path_suffix p =
     (let name = path_name p in
      case rfind (CHR ''.'') name of
        Some i \<Rightarrow> if 0 < i \<and> i + 1 < length name then drop i name else []
      | None \<Rightarrow> [])"

definition path_stem :: "path \<Rightarrow> string" where
  "path_stem p =
     (let name = path_name p in
      case rfind (CHR ''.'') name of
        Some i \<Rightarrow> if 0 < i \<and> i + 1 < length name then take i name else name
      | None \<Rightarrow> name)"

text \<open>
  \<^verbatim>\<open>parent / name\<close> for a single name: one more component. The names joined by the program
  are directory entries and names built from the stem and suffix of a component.
\<close>

definition joinpath :: "path \<Rightarrow> string \<Rightarrow> path" where
  "joinpath p n = p @ [n]"

text \<open>
  \<^verbatim>\<open>Path.with_name\<close>: raises \<^verbatim>\<open>ValueError\<close> when the path has an empty name, or when the new
  name is empty, is a single dot, or contains the separator.
\<close>

definition with_name :: "path \<Rightarrow> string \<Rightarrow> string + path" where
  "with_name p n =
     (if path_name p = [] then Inl ''ValueError''
      else if n = [] \<or> CHR ''/'' \<in> set n \<or> n = ''.'' then Inl ''ValueError''
      else Inr (butlast p @ [n]))"

text \<open>\<^verbatim>\<open>str(path)\<close>: the components, each behind a separator.\<close>

definition path_str :: "path \<Rightarrow> string" where
  "path_str p = (if p = [] then ''/'' else concat (map (\<lambda>c. CHR ''/'' # c) p))"

section \<open>File system\<close>

text \<open>
  The file system is a tree. A directory holds its entries in the order in which a
  directory scan lists them.
\<close>

datatype fsnode = File | Dir "(string \<times> fsnode) list"

text \<open>Looking up a path whose components are all entry names.\<close>

fun fs_lookup :: "fsnode \<Rightarrow> path \<Rightarrow> fsnode option" where
  "fs_lookup n [] = Some n"
| "fs_lookup File (c # cs) = None"
| "fs_lookup (Dir es) (c # cs) =
     (case map_of es c of None \<Rightarrow> None | Some n \<Rightarrow> fs_lookup n cs)"

text \<open>
  Resolving a path as the operating system does: every component but the last must lead
  through a directory, and \<^verbatim>\<open>..\<close> steps to the parent directory (the root is its own
  parent). The result is the resolved location, free of \<^verbatim>\<open>..\<close>.
\<close>

fun realpath :: "fsnode \<Rightarrow> path \<Rightarrow> path \<Rightarrow> path option" where
  "realpath t cur [] = Some cur"
| "realpath t cur (c # cs) =
     (case fs_lookup t cur of
        Some (Dir es) \<Rightarrow>
          if c = ''..'' then realpath t (butlast cur) cs
          else if map_of es c \<noteq> None then realpath t (cur @ [c]) cs
          else None
      | _ \<Rightarrow> None)"

text \<open>Whether a path resolves to an entry of the tree.\<close>

definition fs_exists :: "fsnode \<Rightarrow> path \<Rightarrow> bool" where
  "fs_exists t p = (realpath t [] p \<noteq> None)"

text \<open>
  The environment of a run: what the operating system refuses. \<open>stat_error\<close> names the paths
  on which \<^verbatim>\<open>os.stat\<close> fails with an error other than "not found" (name too long, permission
  denied), with the message of the \<^verbatim>\<open>OSError\<close>. \<open>rename_error\<close> names the calls of
  \<^verbatim>\<open>os.rename\<close> that are refused (permissions, locks), with the message of the exception.
\<close>

record os_env =
  stat_error :: "path \<Rightarrow> string option"
  rename_error :: "path \<Rightarrow> path \<Rightarrow> string option"

text \<open>
  \<^verbatim>\<open>Path.exists()\<close>: the answer, or the \<^verbatim>\<open>OSError\<close> that \<^verbatim>\<open>os.stat\<close> raised and that
  \<^verbatim>\<open>exists\<close> does not swallow.
\<close>

definition path_exists :: "os_env \<Rightarrow> fsnode \<Rightarrow> path \<Rightarrow> string + bool" where
  "path_exists env t p =
     (case stat_error env p of
        Some e \<Rightarrow> Inl e
      | None \<Rightarrow> Inr (fs_exists t p))"

text \<open>Removing the entry at a resolved location, and adding an entry at one.\<close>

fun fs_remove :: "fsnode \<Rightarrow> path \<Rightarrow> fsnode" where
  "fs_remove File p = File"
| "fs_remove (Dir es) [] = Dir es"
| "fs_remove (Dir es) [c] = Dir (filter (\<lambda>e. fst e \<noteq> c) es)"
| "fs_remove (Dir es) (c # d # cs) =
     Dir (map (\<lambda>e. if fst e = c then (fst e, fs_remove (snd e) (d # cs)) else e) es)"

fun fs_insert :: "fsnode \<Rightarrow> path \<Rightarrow> fsnode \<Rightarrow> fsnode" where
  "fs_insert File p n = File"
| "fs_insert (Dir es) [] n = Dir es"
| "fs_insert (Dir es) [c] n = Dir (es @ [(c, n)])"
| "fs_insert (Dir es) (c # d # cs) n =
     Dir (map (\<lambda>e. if fst e = c then (fst e, fs_insert (snd e) (d # cs) n) else e) es)"

text \<open>
  \<^verbatim>\<open>Path.rename(target)\<close>, returning the new tree or the exception's message. The first
  argument names the calls that the operating system refuses. Otherwise the source must
  exist, the target must not (as on Windows; \<^verbatim>\<open>rename_items\<close> only passes a target that
  \<^verbatim>\<open>get_unique_path\<close> has just found absent), the target's directory must exist, and a
  directory cannot be moved into itself. The renamed entry goes to the end of the listing.
\<close>

definition os_rename ::
  "(path \<Rightarrow> path \<Rightarrow> string option) \<Rightarrow> fsnode \<Rightarrow> path \<Rightarrow> path \<Rightarrow> string + fsnode" where
  "os_rename fault t src dst =
     (case fault src dst of
        Some e \<Rightarrow> Inl e
      | None \<Rightarrow>
         (case realpath t [] src of
            None \<Rightarrow> Inl ''FileNotFoundError''
          | Some rsrc \<Rightarrow>
              if dst = [] \<or> fs_exists t dst then Inl ''FileExistsError''
              else (case realpath t [] (butlast dst) of
                      None \<Rightarrow> Inl ''FileNotFoundError''
                    | Some rpar \<Rightarrow>
                       (case fs_lookup t rpar of
                          Some (Dir es) \<Rightarrow>
                            if prefix rsrc (rpar @ [last dst]) then Inl ''OSError''
                            else (case fs_lookup t rsrc of
                                    Some n \<Rightarrow>
                                      Inr (fs_insert (fs_remove t rsrc) (rpar @ [last dst]) n)
                                  | None \<Rightarrow> Inl ''FileNotFoundError'')
                        | _ \<Rightarrow> Inl ''NotADirectoryError''))))"

text \<open>
  \<^verbatim>\<open>os.walk(top, topdown=False)\<close> on a directory: the triples of all subdirectories, in
  listing order, then the triple of the directory itself. Each triple is the directory's
  path, the names of its subdirectories and the names of its other entries. A directory is
  scanned when the walk enters it, which is before the program renames anything in it or
  under it, so the walk is computed from the tree as it is when the walk starts.
\<close>

fun is_dir :: "fsnode \<Rightarrow> bool" where
  "is_dir (Dir es) = True"
| "is_dir File = False"

fun os_walk :: "path \<Rightarrow> fsnode \<Rightarrow> (path \<times> string list \<times> string list) list" where
  "os_walk dirpath File = []"
| "os_walk dirpath (Dir es) =
     concat (map (\<lambda>e. os_walk (dirpath @ [fst e]) (snd e)) es)
     @ [(dirpath, map fst (filter (\<lambda>e. is_dir (snd e)) es),
                  map fst (filter (\<lambda>e. \<not> is_dir (snd e)) es))]"

text \<open>The walk from a path: nothing is yielded when the path is not a directory.\<close>

definition walk_bottom_up :: "fsnode \<Rightarrow> path \<Rightarrow> (path \<times> string list \<times> string list) list" where
  "walk_bottom_up t root_directory =
     (case realpath t [] root_directory of
        None \<Rightarrow> []
      | Some r \<Rightarrow> (case fs_lookup t r of None \<Rightarrow> [] | Some n \<Rightarrow> os_walk root_directory n))"

section \<open>Module state\<close>

text \<open>
  The three module-level variables \<^verbatim>\<open>conflict_log\<close>, \<^verbatim>\<open>error_log\<close> and
  \<^verbatim>\<open>reserved_paths\<close>, together with what the program acts on: the file system, the lines
  it has printed, and the calls of \<^verbatim>\<open>Path.rename\<close> it has made (source and target, in
  order).
\<close>

record world =
  conflict_log :: "string list"
  error_log :: "string list"
  reserved_paths :: "path fset"
  disk :: fsnode
  stdout :: "string list"
  rename_calls :: "(path \<times> path) list"

section \<open>Path deconflictor\<close>

text \<open>The f-string \<^verbatim>\<open>f"{stem}_{counter}{suffix}"\<close>.\<close>

definition unique_file_name :: "string \<Rightarrow> nat \<Rightarrow> string \<Rightarrow> string" where
  "unique_file_name stem counter sfx = stem @ ''_'' @ str_nat counter @ sfx"


text \<open>Reading a decimal numeral back: the rendering of a counter determines the counter.\<close>

definition nat_of_str :: "string \<Rightarrow> nat" where
  "nat_of_str s = foldl (\<lambda>a c. 10 * a + (of_char c - 48)) 0 s"

lemma of_digit: "d < 10 \<Longrightarrow> of_char (digit_char d) - 48 = (d::nat)"
  by (simp add: digit_char_def)

lemma nat_of_str_nat: "nat_of_str (str_nat n) = n"
proof (induction n rule: str_nat.induct)
  case (1 n)
  show ?case
  proof (cases "n < 10")
    case True
    then show ?thesis by (subst str_nat.simps) (simp add: nat_of_str_def of_digit)
  next
    case False
    with 1 show ?thesis
      by (subst str_nat.simps) (simp add: nat_of_str_def of_digit)
  qed
qed

lemma str_nat_inj: "str_nat a = str_nat b \<Longrightarrow> a = b"
  by (metis nat_of_str_nat)

lemma unique_file_name_inj:
  "unique_file_name st a su = unique_file_name st b su \<Longrightarrow> a = b"
  by (simp add: unique_file_name_def str_nat_inj)

lemma str_nat_digits: "c \<in> set (str_nat n) \<Longrightarrow> c \<in> digit_char ` {..<10}"
proof (induction n rule: str_nat.induct)
  case (1 n)
  then show ?case
    by (subst (asm) (2) str_nat.simps) (auto split: if_splits)
qed

lemma unique_file_name_not_dotdot: "unique_file_name st k su \<noteq> ''..''"
proof
  assume "unique_file_name st k su = ''..''"
  then have "CHR ''_'' \<in> set ''..''"
    unfolding unique_file_name_def by (metis in_set_conv_decomp append_Cons append_Nil)
  then show False by simp
qed

lemma realpath_snoc:
  "realpath t cur (p @ [nm]) \<noteq> None \<Longrightarrow> nm \<noteq> ''..'' \<Longrightarrow>
   \<exists>q es. realpath t cur p = Some q \<and> fs_lookup t q = Some (Dir es) \<and> nm \<in> fst ` set es"
proof (induction p arbitrary: cur)
  case Nil
  then show ?case
    by (auto split: option.splits fsnode.splits if_splits simp: map_of_eq_None_iff)
next
  case (Cons a p)
  then show ?case
    by (auto split: option.splits fsnode.splits if_splits)
qed

text \<open>The entry names of the directory a path resolves to.\<close>

definition dir_names :: "fsnode \<Rightarrow> path \<Rightarrow> string set" where
  "dir_names t par =
     (case realpath t [] par of
        None \<Rightarrow> {}
      | Some q \<Rightarrow> (case fs_lookup t q of Some (Dir es) \<Rightarrow> fst ` set es | _ \<Rightarrow> {}))"

lemma finite_dir_names: "finite (dir_names t par)"
  by (auto simp: dir_names_def split: option.splits fsnode.splits)

lemma exists_in_dir_names:
  "fs_exists t (par @ [nm]) \<Longrightarrow> nm \<noteq> ''..'' \<Longrightarrow> nm \<in> dir_names t par"
proof -
  assume "fs_exists t (par @ [nm])" and "nm \<noteq> ''..''"
  then obtain q es where "realpath t [] par = Some q" "fs_lookup t q = Some (Dir es)"
      "nm \<in> fst ` set es"
    unfolding fs_exists_def using realpath_snoc by blast
  then show ?thesis by (simp add: dir_names_def)
qed

text \<open>The counters whose candidate exists on disk or is reserved.\<close>

definition taken :: "world \<Rightarrow> string \<Rightarrow> string \<Rightarrow> path \<Rightarrow> nat set" where
  "taken w stem sfx parent =
     {k. fs_exists (disk w) (joinpath parent (unique_file_name stem k sfx))
         \<or> joinpath parent (unique_file_name stem k sfx) |\<in>| reserved_paths w}"

lemma finite_taken: "finite (taken w stem sfx parent)"
proof -
  let ?f = "\<lambda>k. unique_file_name stem k sfx"
  have inj: "inj ?f" by (rule injI) (rule unique_file_name_inj)
  have inj2: "inj (\<lambda>k. joinpath parent (?f k))"
    by (rule injI) (auto simp: joinpath_def dest: unique_file_name_inj)
  have "taken w stem sfx parent \<subseteq>
        ?f -` dir_names (disk w) parent \<union> (\<lambda>k. joinpath parent (?f k)) -` fset (reserved_paths w)"
    by (auto simp: taken_def joinpath_def unique_file_name_not_dotdot dest!: exists_in_dir_names)
  moreover have "finite (?f -` dir_names (disk w) parent)"
    using inj finite_dir_names by (rule finite_vimageI[rotated])
  moreover have "finite ((\<lambda>k. joinpath parent (?f k)) -` fset (reserved_paths w))"
    using inj2 by (intro finite_vimageI) auto
  ultimately show ?thesis by (meson finite_UnI finite_subset)
qed

text \<open>
  The \<^verbatim>\<open>while True\<close> loop of \<^verbatim>\<open>get_unique_path\<close>. It ends because a directory has
  finitely many entries and finitely many paths are reserved, while the candidates of
  different counters differ.
\<close>

function unique_loop ::
  "os_env \<Rightarrow> world \<Rightarrow> path \<Rightarrow> string \<Rightarrow> string \<Rightarrow> path \<Rightarrow> nat \<Rightarrow> string + path \<times> world" where
  "unique_loop env w old_file_path stem sfx parent counter =
     (let new_unique_file_name = unique_file_name stem counter sfx;
          new_unique_file_path = joinpath parent new_unique_file_name
      in case path_exists env (disk w) new_unique_file_path of
           Inl e \<Rightarrow> Inl e
         | Inr found \<Rightarrow>
             if \<not> found \<and> new_unique_file_path |\<notin>| reserved_paths w
             then Inr (new_unique_file_path,
                    w\<lparr>conflict_log := conflict_log w @
                         [''Renaming: '' @ path_str old_file_path @ '' -> '' @ new_unique_file_name
                            @ '' to avoid conflict''],
                      reserved_paths := finsert new_unique_file_path (reserved_paths w)\<rparr>)
             else unique_loop env w old_file_path stem sfx parent (counter + 1))"
  by pat_completeness auto
termination
proof (relation "measure (\<lambda>(env, w, old, stem, sfx, parent, counter).
                   card {k \<in> taken w stem sfx parent. counter \<le> k})")
  show "wf (measure (\<lambda>(env, w, old, stem, sfx, parent, counter).
                   card {k \<in> taken w stem sfx parent. counter \<le> k}))" by simp
next
  fix env :: os_env and w :: world and old_file_path :: path and stem sfx :: string
    and parent :: path and counter :: nat and x xa found
  assume x: "x = unique_file_name stem counter sfx" and xa: "xa = joinpath parent x"
    and ex: "path_exists env (disk w) xa = Inr found"
    and occ: "\<not> (\<not> found \<and> xa |\<notin>| reserved_paths w)"
  have "found = fs_exists (disk w) xa"
    using ex by (auto simp: path_exists_def split: option.splits)
  then have mem: "counter \<in> taken w stem sfx parent"
    using occ x xa by (auto simp: taken_def)
  let ?A = "{k \<in> taken w stem sfx parent. counter + 1 \<le> k}"
  let ?B = "{k \<in> taken w stem sfx parent. counter \<le> k}"
  have inB: "counter \<in> ?B" and notA: "counter \<notin> ?A"
    using mem by simp_all
  have sub: "?A \<subseteq> ?B" by auto
  have "?A \<noteq> ?B" using inB notA by metis
  with sub have "?A \<subset> ?B" by (rule psubsetI)
  then have "card {k \<in> taken w stem sfx parent. counter + 1 \<le> k}
           < card {k \<in> taken w stem sfx parent. counter \<le> k}"
    by (intro psubset_card_mono) (simp_all add: finite_taken)
  then show "((env, w, old_file_path, stem, sfx, parent, counter + 1),
              env, w, old_file_path, stem, sfx, parent, counter)
        \<in> measure (\<lambda>(env, w, old, stem, sfx, parent, counter).
             card {k \<in> taken w stem sfx parent. counter \<le> k})"
    by simp
qed

declare unique_loop.simps [simp del]

text \<open>
  \<^verbatim>\<open>get_unique_path\<close> (lines 33 to 53). An \<^verbatim>\<open>OSError\<close> raised by \<^verbatim>\<open>exists()\<close> leaves the
  function before it has changed anything.
\<close>

definition get_unique_path :: "os_env \<Rightarrow> path \<Rightarrow> path \<Rightarrow> world \<Rightarrow> string + path \<times> world" where
  "get_unique_path env old_file_path new_file_path w =
     (case path_exists env (disk w) new_file_path of
        Inl e \<Rightarrow> Inl e
      | Inr found \<Rightarrow>
          if \<not> found \<and> new_file_path |\<notin>| reserved_paths w
          then Inr (new_file_path, w\<lparr>reserved_paths := finsert new_file_path (reserved_paths w)\<rparr>)
          else unique_loop env w old_file_path (path_stem new_file_path) (path_suffix new_file_path)
                 (path_parent new_file_path) 1)"

section \<open>Traversal and rename engine\<close>

text \<open>The state of the module when it has just been loaded (lines 24 to 26).\<close>

definition module_init :: "fsnode \<Rightarrow> world" where
  "module_init t =
     \<lparr>conflict_log = [], error_log = [], reserved_paths = {||}, disk = t, stdout = [],
      rename_calls = []\<rparr>"

text \<open>
  A \<^verbatim>\<open>for\<close> loop whose body may raise: the result is the exception's message, if one was
  raised, and the state reached.
\<close>

fun for_each :: "('a \<Rightarrow> 's \<Rightarrow> string option \<times> 's) \<Rightarrow> 'a list \<Rightarrow> 's \<Rightarrow> string option \<times> 's" where
  "for_each body [] s = (None, s)"
| "for_each body (x # xs) s =
     (case body x s of
        (Some e, s') \<Rightarrow> (Some e, s')
      | (None, s') \<Rightarrow> for_each body xs s')"

text \<open>
  The dictionary comprehension of \<^verbatim>\<open>rename_items\<close>: rows are inserted in order, a key
  that is already present gets the new value.
\<close>

definition build_map :: "(pyval \<times> pyval) list \<Rightarrow> (string \<times> string) list" where
  "build_map rows =
     foldl (\<lambda>d row. AList.update (py_str (fst row)) (sanitize_filename (snd row)) d) [] rows"

definition mode_label :: "bool \<Rightarrow> string" where
  "mode_label dry_run = (if dry_run then ''[DRY RUN]'' else ''[EXECUTING]'')"

definition print :: "string \<Rightarrow> world \<Rightarrow> world" where
  "print line w = w\<lparr>stdout := stdout w @ [line]\<rparr>"

text \<open>
  The \<^verbatim>\<open>try\<close> block around \<^verbatim>\<open>Path.rename\<close>: the call is made; when it raises, one line
  goes to the error log and nothing else happens.
\<close>

definition try_rename :: "os_env \<Rightarrow> string \<Rightarrow> path \<Rightarrow> path \<Rightarrow> world \<Rightarrow> world" where
  "try_rename env kind old_path new_path w =
     (let w' = w\<lparr>rename_calls := rename_calls w @ [(old_path, new_path)]\<rparr> in
      case os_rename (rename_error env) (disk w) old_path new_path of
        Inr t \<Rightarrow> w'\<lparr>disk := t\<rparr>
      | Inl e \<Rightarrow>
          w'\<lparr>error_log := error_log w @
                [''Failed to rename '' @ kind @ '' '' @ path_str old_path @ '' -> ''
                   @ path_name new_path @ '': '' @ e]\<rparr>)"

text \<open>The body of the loop over the files of one directory (lines 76 to 93).\<close>

definition rename_file ::
  "os_env \<Rightarrow> (string \<times> string) list \<Rightarrow> bool \<Rightarrow> path \<Rightarrow> string
     \<Rightarrow> nat \<times> world \<Rightarrow> string option \<times> nat \<times> world" where
  "rename_file env file_map dry_run root file_name st =
     (case st of (file_counter, w) \<Rightarrow>
      let old_file_path = joinpath root file_name;
          old_stem = path_stem old_file_path;
          extension = path_suffix old_file_path
      in case map_of file_map old_stem of
           None \<Rightarrow> (None, file_counter, w)
         | Some mapped \<Rightarrow>
            (case with_name old_file_path (mapped @ extension) of
               Inl e \<Rightarrow> (Some e, file_counter, w)
             | Inr desired \<Rightarrow>
                (case get_unique_path env old_file_path desired w of
                   Inl e \<Rightarrow> (Some e, file_counter, w)
                 | Inr (new_file_path, w1) \<Rightarrow>
                     let w2 = print (mode_label dry_run @ '' File: '' @ path_str old_file_path
                                       @ '' -> '' @ path_name new_file_path) w1
                     in (None, file_counter + 1,
                         if \<not> dry_run then try_rename env ''file'' old_file_path new_file_path w2
                         else w2))))"

text \<open>The body of the loop over the subdirectories of one directory (lines 98 to 112).\<close>

definition rename_dir ::
  "os_env \<Rightarrow> (string \<times> string) list \<Rightarrow> bool \<Rightarrow> path \<Rightarrow> string
     \<Rightarrow> nat \<times> world \<Rightarrow> string option \<times> nat \<times> world" where
  "rename_dir env folder_map dry_run root dir_name st =
     (case st of (folder_counter, w) \<Rightarrow>
      let old_dir_path = joinpath root dir_name
      in case map_of folder_map dir_name of
           None \<Rightarrow> (None, folder_counter, w)
         | Some new_dir_name \<Rightarrow>
            (case with_name old_dir_path new_dir_name of
               Inl e \<Rightarrow> (Some e, folder_counter, w)
             | Inr desired \<Rightarrow>
                (case get_unique_path env old_dir_path desired w of
                   Inl e \<Rightarrow> (Some e, folder_counter, w)
                 | Inr (new_dir_path, w1) \<Rightarrow>
                     let w2 = print (mode_label dry_run @ '' Folder: '' @ path_str old_dir_path
                                       @ '' -> '' @ path_name new_dir_path) w1
                     in (None, folder_counter + 1,
                         if \<not> dry_run then try_rename env ''folder'' old_dir_path new_dir_path w2
                         else w2))))"

text \<open>The body of the loop over the walk (lines 72 to 112): first the files, then the folders.\<close>

definition rename_level ::
  "os_env \<Rightarrow> (string \<times> string) list \<Rightarrow> (string \<times> string) list \<Rightarrow> bool
     \<Rightarrow> path \<times> string list \<times> string list
     \<Rightarrow> (nat \<times> nat) \<times> world \<Rightarrow> string option \<times> (nat \<times> nat) \<times> world" where
  "rename_level env file_map folder_map dry_run triple st =
     (case (triple, st) of ((root, dirs, files), ((file_counter, folder_counter), w)) \<Rightarrow>
      case for_each (rename_file env file_map dry_run root) files (file_counter, w) of
        (Some e, (file_counter', w')) \<Rightarrow> (Some e, (file_counter', folder_counter), w')
      | (None, (file_counter', w')) \<Rightarrow>
         (case for_each (rename_dir env folder_map dry_run root) dirs (folder_counter, w') of
            (r, (folder_counter', w'')) \<Rightarrow> (r, (file_counter', folder_counter'), w'')))"

text \<open>The two summaries printed after the walk (lines 115 to 125).\<close>

definition print_summary :: "world \<Rightarrow> world" where
  "print_summary w =
     w\<lparr>stdout := stdout w
        @ (if conflict_log w \<noteq> []
           then [CHR 0x0A # ''--- Warning: Rename Conflicts ---''] @ conflict_log w @ [[]]
           else [])
        @ (if error_log w \<noteq> []
           then [CHR 0x0A # ''--- Errors Encountered During Renaming ---''] @ error_log w @ [[]]
           else [])\<rparr>"

text \<open>
  \<^verbatim>\<open>rename_items\<close>, in a given environment. The two tables are given as the rows read from
  the CSV files. The result
  is the pair of counters, or the message of the exception that ended the run, with the
  state reached.
\<close>

definition rename_items ::
  "os_env \<Rightarrow> path \<Rightarrow> (pyval \<times> pyval) list \<Rightarrow> (pyval \<times> pyval) list \<Rightarrow> bool
     \<Rightarrow> world \<Rightarrow> (string + nat \<times> nat) \<times> world" where
  "rename_items env root_directory files_csv folders_csv dry_run w =
     (let file_map = build_map files_csv;
          folder_map = build_map folders_csv;
          w1 = print (mode_label dry_run @ '' Loaded '' @ str_nat (length file_map)
                        @ '' file mappings and '' @ str_nat (length folder_map)
                        @ '' folder mappings.'') w
      in case for_each (rename_level env file_map folder_map dry_run)
                (walk_bottom_up (disk w1) root_directory) ((0, 0), w1) of
           (Some e, (counters, w2)) \<Rightarrow> (Inl e, w2)
         | (None, (counters, w2)) \<Rightarrow> (Inr counters, print_summary w2))"


section \<open>Properties of the sanitizer\<close>

lemma re_sub_class_idem:
  "r \<notin> cls \<Longrightarrow> re_sub_class cls r (re_sub_class cls r s) = re_sub_class cls r s"
  by (induction s) (simp_all add: re_sub_class_def)

lemma underscore_not_reserved: "CHR ''_'' \<notin> reserved_chars"
  by (simp add: reserved_chars_def)

text \<open>
  Claim C9. \<^verbatim>\<open>sanitize_filename\<close> converts its argument to its string form and replaces
  each of the nine characters \<^verbatim>\<open>< > : " / \ | ? *\<close> by an underscore, leaving every other
  character and the length as they are. It has a result for every argument (strings,
  integers, booleans, NaN and other floats), none of the nine characters occurs in its
  result, and sanitizing a sanitized name changes nothing. A name holding all nine
  characters, a negative integer and NaN are sanitized as shown.
\<close>

theorem sanitize_filename_total_idempotent:
  "sanitize_filename v =
     map (\<lambda>c. if c \<in> {CHR ''<'', CHR ''>'', CHR '':'', CHR 0x22, CHR ''/'', CHR 0x5C,
                       CHR ''|'', CHR ''?'', CHR ''*''}
               then CHR ''_'' else c) (py_str v)
   \<and> set (sanitize_filename v)
        \<inter> {CHR ''<'', CHR ''>'', CHR '':'', CHR 0x22, CHR ''/'', CHR 0x5C,
            CHR ''|'', CHR ''?'', CHR ''*''} = {}
   \<and> length (sanitize_filename v) = length (py_str v)
   \<and> sanitize_filename (PStr (sanitize_filename v)) = sanitize_filename v
   \<and> sanitize_filename
        (PStr (''a<b>c:d'' @ [CHR 0x22] @ ''e/f'' @ [CHR 0x5C] @ ''g|h?i*j.txt''))
       = ''a_b_c_d_e_f_g_h_i_j.txt''
   \<and> sanitize_filename (PInt (- 42)) = ''-42''
   \<and> sanitize_filename PNaN = ''nan''
   \<and> sanitize_filename (PFloat ''1.5'') = ''1.5''"
proof -
  have eq: "sanitize_filename v =
     map (\<lambda>c. if c \<in> {CHR ''<'', CHR ''>'', CHR '':'', CHR 0x22, CHR ''/'', CHR 0x5C,
                       CHR ''|'', CHR ''?'', CHR ''*''}
               then CHR ''_'' else c) (py_str v)"
    by (simp add: sanitize_filename_def re_sub_class_def reserved_chars_def)
  have clean: "set (sanitize_filename v)
        \<inter> {CHR ''<'', CHR ''>'', CHR '':'', CHR 0x22, CHR ''/'', CHR 0x5C,
            CHR ''|'', CHR ''?'', CHR ''*''} = {}"
    unfolding eq by auto
  have len: "length (sanitize_filename v) = length (py_str v)"
    unfolding eq by simp
  have idem: "sanitize_filename (PStr (sanitize_filename v)) = sanitize_filename v"
    by (simp add: sanitize_filename_def re_sub_class_idem underscore_not_reserved)
  have ex1: "sanitize_filename
        (PStr (''a<b>c:d'' @ [CHR 0x22] @ ''e/f'' @ [CHR 0x5C] @ ''g|h?i*j.txt''))
       = ''a_b_c_d_e_f_g_h_i_j.txt''"
    by code_simp
  have ex2: "sanitize_filename (PInt (- 42)) = ''-42''" by code_simp
  have ex3: "sanitize_filename PNaN = ''nan''" by code_simp
  have ex4: "sanitize_filename (PFloat ''1.5'') = ''1.5''" by code_simp
  show ?thesis using eq clean len idem ex1 ex2 ex3 ex4 by blast
qed

theorem sanitize_filename_total_idempotent_witness:
  "sanitize_filename (PStr ''What? <draft>: v1*'') = ''What_ _draft__ v1_''
   \<and> set (sanitize_filename (PStr ''What? <draft>: v1*''))
        \<inter> {CHR ''<'', CHR ''>'', CHR '':'', CHR 0x22, CHR ''/'', CHR 0x5C,
            CHR ''|'', CHR ''?'', CHR ''*''} = {}
   \<and> sanitize_filename (PStr ''What_ _draft__ v1_'') = ''What_ _draft__ v1_''"
proof -
  have a: "sanitize_filename (PStr ''What? <draft>: v1*'') = ''What_ _draft__ v1_''"
    by code_simp
  show ?thesis
    using sanitize_filename_total_idempotent [of "PStr ''What? <draft>: v1*''"] a
    by simp
qed

section \<open>Properties of the lookup tables\<close>

lemma build_map_snoc:
  "build_map (rows @ [r]) = AList.update (py_str (fst r)) (sanitize_filename (snd r)) (build_map rows)"
  by (simp add: build_map_def)

lemma map_of_build_map_snoc:
  "map_of (build_map (rows @ [r])) = (map_of (build_map rows))(py_str (fst r) \<mapsto> sanitize_filename (snd r))"
  by (simp add: build_map_snoc update_conv')

lemma map_of_build_map_later:
  "k \<notin> (\<lambda>r. py_str (fst r)) ` set post \<Longrightarrow>
   map_of (build_map (rows @ post)) k = map_of (build_map rows) k"
proof (induction post rule: rev_induct)
  case Nil
  then show ?case by simp
next
  case (snoc r post)
  then have "map_of (build_map ((rows @ post) @ [r])) k = map_of (build_map (rows @ post)) k"
    unfolding map_of_build_map_snoc by auto
  with snoc show ?case by simp
qed

text \<open>
  Claim C7. In the lookup table built from the rows of a mapping table, a key resolves to
  the sanitized new name of the last row that has this key: a row overrides every earlier
  row with the same key. In particular the rows A, B and A, C resolve A to (the sanitized) C.
\<close>

theorem build_map_last_write_wins:
  assumes "py_str a \<notin> (\<lambda>r. py_str (fst r)) ` set post"
  shows "map_of (build_map (pre @ (a, c) # post)) (py_str a) = Some (sanitize_filename c)
         \<and> map_of (build_map [(a, b), (a, c)]) (py_str a) = Some (sanitize_filename c)"
proof -
  have last: "\<And>rows. map_of (build_map (rows @ [(a, c)])) (py_str a) = Some (sanitize_filename c)"
    by (simp add: map_of_build_map_snoc)
  have "map_of (build_map ((pre @ [(a, c)]) @ post)) (py_str a)
        = map_of (build_map (pre @ [(a, c)])) (py_str a)"
    using assms by (rule map_of_build_map_later)
  then have one: "map_of (build_map (pre @ (a, c) # post)) (py_str a) = Some (sanitize_filename c)"
    using last by simp
  have two: "map_of (build_map [(a, b), (a, c)]) (py_str a) = Some (sanitize_filename c)"
    using last [of "[(a, b)]"] by simp
  show ?thesis using one two by simp
qed

theorem build_map_last_write_wins_witness:
  "py_str (PStr ''A'') \<notin> (\<lambda>r. py_str (fst r)) ` set [(PStr ''X'', PStr ''Y'')]
   \<and> map_of (build_map ([(PStr ''A'', PStr ''B'')] @ (PStr ''A'', PStr ''C'') # [(PStr ''X'', PStr ''Y'')])) ''A'' = Some ''C''
   \<and> map_of (build_map [(PStr ''A'', PStr ''B''), (PStr ''A'', PStr ''C'')]) ''A'' = Some ''C''"
proof -
  have h: "py_str (PStr ''A'') \<notin> (\<lambda>r. py_str (fst r)) ` set [(PStr ''X'', PStr ''Y'')]"
    by simp
  have s: "sanitize_filename (PStr ''C'') = ''C''" by code_simp
  show ?thesis
    using h build_map_last_write_wins [OF h, of "[(PStr ''A'', PStr ''B'')]" "PStr ''C''" "PStr ''B''"] s
    by simp
qed

section \<open>Properties of the deconflictor\<close>

text \<open>A path is free when it neither exists on disk nor is reserved.\<close>

definition free_path :: "world \<Rightarrow> path \<Rightarrow> bool" where
  "free_path w p = (\<not> fs_exists (disk w) p \<and> p |\<notin>| reserved_paths w)"

text \<open>The line that the loop appends to the conflict log.\<close>

definition conflict_entry :: "path \<Rightarrow> string \<Rightarrow> string" where
  "conflict_entry old_file_path new_name =
     ''Renaming: '' @ path_str old_file_path @ '' -> '' @ new_name @ '' to avoid conflict''"

lemma path_exists_Inr: "path_exists env t p = Inr found \<Longrightarrow> found = fs_exists t p"
  by (auto simp: path_exists_def split: option.splits)

lemma path_exists_Inl: "path_exists env t p = Inl e \<Longrightarrow> stat_error env p = Some e"
  by (auto simp: path_exists_def split: option.splits)

lemma unique_loop_result:
  assumes "unique_loop env w old stem sfx parent counter = Inr (p, w')"
  shows "\<exists>k\<ge>counter.
     p = joinpath parent (unique_file_name stem k sfx)
     \<and> w' = w\<lparr>conflict_log := conflict_log w @ [conflict_entry old (unique_file_name stem k sfx)],
               reserved_paths := finsert (joinpath parent (unique_file_name stem k sfx)) (reserved_paths w)\<rparr>
     \<and> free_path w (joinpath parent (unique_file_name stem k sfx))
     \<and> (\<forall>j. counter \<le> j \<and> j < k \<longrightarrow> \<not> free_path w (joinpath parent (unique_file_name stem j sfx)))"
  using assms
proof (induction env w old stem sfx parent counter rule: unique_loop.induct)
  case (1 env w old stem sfx parent counter)
  let ?p = "joinpath parent (unique_file_name stem counter sfx)"
  obtain found where ex: "path_exists env (disk w) ?p = Inr found"
    using "1.prems" by (subst (asm) unique_loop.simps) (auto simp: Let_def split: sum.splits)
  have found: "found = fs_exists (disk w) ?p" using ex by (rule path_exists_Inr)
  show ?case
  proof (cases "free_path w ?p")
    case True
    then have "unique_loop env w old stem sfx parent counter =
       Inr (?p, w\<lparr>conflict_log := conflict_log w @ [conflict_entry old (unique_file_name stem counter sfx)],
                  reserved_paths := finsert ?p (reserved_paths w)\<rparr>)"
      using ex found by (subst unique_loop.simps) (simp add: free_path_def conflict_entry_def Let_def)
    then have "p = ?p" and "w' = w\<lparr>conflict_log := conflict_log w @ [conflict_entry old (unique_file_name stem counter sfx)],
                  reserved_paths := finsert ?p (reserved_paths w)\<rparr>"
      using "1.prems" by simp_all
    then show ?thesis using True by (intro exI [of _ counter]) auto
  next
    case False
    then have occ: "\<not> (\<not> found \<and> ?p |\<notin>| reserved_paths w)"
      using found by (simp add: free_path_def)
    have step: "unique_loop env w old stem sfx parent counter
                = unique_loop env w old stem sfx parent (counter + 1)"
      using ex occ by (subst unique_loop.simps) (auto simp: Let_def)
    then have "unique_loop env w old stem sfx parent (counter + 1) = Inr (p, w')"
      using "1.prems" by simp
    from "1.IH" [OF refl refl ex occ this]
    obtain k where k: "counter + 1 \<le> k"
      and res: "p = joinpath parent (unique_file_name stem k sfx)"
        "w' = w\<lparr>conflict_log := conflict_log w @ [conflict_entry old (unique_file_name stem k sfx)],
               reserved_paths := finsert (joinpath parent (unique_file_name stem k sfx)) (reserved_paths w)\<rparr>"
      and fr: "free_path w (joinpath parent (unique_file_name stem k sfx))"
      and below: "\<forall>j. counter + 1 \<le> j \<and> j < k \<longrightarrow> \<not> free_path w (joinpath parent (unique_file_name stem j sfx))"
      by blast
    have below': "\<forall>j. counter \<le> j \<and> j < k \<longrightarrow> \<not> free_path w (joinpath parent (unique_file_name stem j sfx))"
    proof (intro allI impI)
      fix j assume j: "counter \<le> j \<and> j < k"
      show "\<not> free_path w (joinpath parent (unique_file_name stem j sfx))"
      proof (cases "j = counter")
        case True then show ?thesis using False by simp
      next
        case False then show ?thesis using j below by simp
      qed
    qed
    show ?thesis
      using k res fr below' by (intro exI [of _ k]) simp
  qed
qed

lemma unique_loop_raises:
  assumes "unique_loop env w old stem sfx parent counter = Inl e"
  shows "\<exists>q. stat_error env q = Some e"
  using assms
proof (induction env w old stem sfx parent counter rule: unique_loop.induct)
  case (1 env w old stem sfx parent counter)
  let ?p = "joinpath parent (unique_file_name stem counter sfx)"
  show ?case
  proof (cases "path_exists env (disk w) ?p")
    case (Inl e')
    then have "unique_loop env w old stem sfx parent counter = Inl e'"
      by (subst unique_loop.simps) (simp add: Let_def)
    then have "e' = e" using "1.prems" by simp
    then show ?thesis using path_exists_Inl [OF Inl] by blast
  next
    case (Inr found)
    show ?thesis
    proof (cases "\<not> found \<and> ?p |\<notin>| reserved_paths w")
      case True
      then have "\<exists>r. unique_loop env w old stem sfx parent counter = Inr r"
        using Inr by (subst unique_loop.simps) (simp add: Let_def)
      then show ?thesis using "1.prems" by auto
    next
      case False
      have "unique_loop env w old stem sfx parent counter
                = unique_loop env w old stem sfx parent (counter + 1)"
        using Inr False by (subst unique_loop.simps) (auto simp: Let_def)
      then have "unique_loop env w old stem sfx parent (counter + 1) = Inl e"
        using "1.prems" by simp
      from "1.IH" [OF refl refl Inr False this] show ?thesis .
    qed
  qed
qed

text \<open>The candidate with a given counter for a desired destination.\<close>

definition candidate :: "path \<Rightarrow> nat \<Rightarrow> path" where
  "candidate new_file_path k =
     joinpath (path_parent new_file_path)
       (unique_file_name (path_stem new_file_path) k (path_suffix new_file_path))"

lemma get_unique_path_free:
  "stat_error env new = None \<Longrightarrow> free_path w new \<Longrightarrow>
   get_unique_path env old new w = Inr (new, w\<lparr>reserved_paths := finsert new (reserved_paths w)\<rparr>)"
  by (simp add: get_unique_path_def path_exists_def free_path_def)

text \<open>
  What a call that returns has done: either the desired path was free and is returned, or
  the candidate with the least counter, from 1 on, that is free is returned and logged.
\<close>

lemma get_unique_path_result:
  assumes "get_unique_path env old new w = Inr (p, w')"
  shows "(free_path w new \<and> p = new \<and> w' = w\<lparr>reserved_paths := finsert new (reserved_paths w)\<rparr>)
       \<or> (\<not> free_path w new \<and> (\<exists>k\<ge>1.
             p = candidate new k
             \<and> w' = w\<lparr>conflict_log := conflict_log w @ [conflict_entry old (path_name (candidate new k))],
                       reserved_paths := finsert (candidate new k) (reserved_paths w)\<rparr>
             \<and> free_path w (candidate new k)
             \<and> (\<forall>j. 1 \<le> j \<and> j < k \<longrightarrow> \<not> free_path w (candidate new j))))"
proof -
  obtain found where ex: "path_exists env (disk w) new = Inr found"
    using assms by (auto simp: get_unique_path_def split: sum.splits)
  have found: "found = fs_exists (disk w) new" using ex by (rule path_exists_Inr)
  have nm: "\<And>k. path_name (candidate new k) = unique_file_name (path_stem new) k (path_suffix new)"
    by (simp add: candidate_def joinpath_def path_name_def)
  show ?thesis
  proof (cases "free_path w new")
    case True
    then have "get_unique_path env old new w
               = Inr (new, w\<lparr>reserved_paths := finsert new (reserved_paths w)\<rparr>)"
      using ex found by (simp add: get_unique_path_def free_path_def)
    then show ?thesis using assms True by simp
  next
    case False
    then have "get_unique_path env old new w =
      unique_loop env w old (path_stem new) (path_suffix new) (path_parent new) 1"
      using ex found by (auto simp: get_unique_path_def free_path_def)
    then have "unique_loop env w old (path_stem new) (path_suffix new) (path_parent new) 1 = Inr (p, w')"
      using assms by simp
    from unique_loop_result [OF this]
    obtain k where "1 \<le> k" "p = candidate new k"
      "w' = w\<lparr>conflict_log := conflict_log w @ [conflict_entry old (path_name (candidate new k))],
                       reserved_paths := finsert (candidate new k) (reserved_paths w)\<rparr>"
      "free_path w (candidate new k)"
      "\<forall>j. 1 \<le> j \<and> j < k \<longrightarrow> \<not> free_path w (candidate new j)"
      unfolding nm unfolding candidate_def by blast
    then show ?thesis using False by blast
  qed
qed

lemma get_unique_path_raises:
  assumes "get_unique_path env old new w = Inl e"
  shows "\<exists>q. stat_error env q = Some e"
proof (cases "path_exists env (disk w) new")
  case (Inl e')
  then have "e' = e" using assms by (simp add: get_unique_path_def)
  then show ?thesis using path_exists_Inl [OF Inl] by blast
next
  case (Inr found)
  then have "unique_loop env w old (path_stem new) (path_suffix new) (path_parent new) 1 = Inl e"
    using assms by (auto simp: get_unique_path_def split: if_splits)
  then show ?thesis by (rule unique_loop_raises)
qed

text \<open>Where \<^verbatim>\<open>exists()\<close> raises nothing, every call returns.\<close>

lemma get_unique_path_returns:
  assumes "\<forall>q. stat_error env q = None"
  shows "\<exists>p w'. get_unique_path env old new w = Inr (p, w')"
proof (cases "get_unique_path env old new w")
  case (Inl e)
  then show ?thesis using get_unique_path_raises [OF Inl] assms by simp
next
  case (Inr r)
  then show ?thesis by (cases r) simp
qed

lemma get_unique_path_fresh:
  assumes "get_unique_path env old new w = Inr (p, w')"
  shows "free_path w p" and "reserved_paths w' = finsert p (reserved_paths w)"
    and "disk w' = disk w" and "error_log w' = error_log w" and "stdout w' = stdout w"
    and "rename_calls w' = rename_calls w"
proof -
  have "free_path w p \<and> reserved_paths w' = finsert p (reserved_paths w)
     \<and> disk w' = disk w \<and> error_log w' = error_log w \<and> stdout w' = stdout w
     \<and> rename_calls w' = rename_calls w"
    using get_unique_path_result [OF assms] by auto
  then show "free_path w p" and "reserved_paths w' = finsert p (reserved_paths w)"
    and "disk w' = disk w" and "error_log w' = error_log w" and "stdout w' = stdout w"
    and "rename_calls w' = rename_calls w" by simp_all
qed

lemma path_parent_candidate: "path_parent (candidate new k) = path_parent new"
  by (simp add: candidate_def joinpath_def path_parent_def)

text \<open>An environment in which the operating system refuses nothing.\<close>

definition no_fault :: os_env where
  "no_fault = \<lparr>stat_error = (\<lambda>p. None), rename_error = (\<lambda>src dst. None)\<rparr>"

text \<open>
  A directory \<^verbatim>\<open>/r\<close> that lists \<^verbatim>\<open>b.txt\<close> before \<^verbatim>\<open>a.txt\<close>.
\<close>

definition two_file_tree :: fsnode where
  "two_file_tree = Dir [(''r'', Dir [(''b.txt'', File), (''a.txt'', File)])]"

text \<open>
  Claim C10. The path returned by \<^verbatim>\<open>get_unique_path\<close> has the same parent directory as the
  desired destination: only the final name component can differ. A call returns unless
  \<^verbatim>\<open>exists()\<close> raises an \<^verbatim>\<open>OSError\<close>; where it raises nothing, every call returns.
\<close>

theorem get_unique_path_same_parent:
  "(\<forall>p w'. get_unique_path env old_file_path new_file_path w = Inr (p, w')
        \<longrightarrow> path_parent p = path_parent new_file_path)
   \<and> (\<forall>e. get_unique_path env old_file_path new_file_path w = Inl e
        \<longrightarrow> (\<exists>q. stat_error env q = Some e))
   \<and> (\<exists>p w'. get_unique_path no_fault old_file_path new_file_path w = Inr (p, w')
        \<and> path_parent p = path_parent new_file_path)"
proof -
  have a: "\<And>env p w'. get_unique_path env old_file_path new_file_path w = Inr (p, w')
        \<Longrightarrow> path_parent p = path_parent new_file_path"
  proof -
    fix env p w' assume "get_unique_path env old_file_path new_file_path w = Inr (p, w')"
    from get_unique_path_result [OF this] show "path_parent p = path_parent new_file_path"
      by (auto simp: path_parent_candidate)
  qed
  have b: "\<forall>e. get_unique_path env old_file_path new_file_path w = Inl e
        \<longrightarrow> (\<exists>q. stat_error env q = Some e)"
    using get_unique_path_raises by blast
  have "\<forall>q. stat_error no_fault q = None" by (simp add: no_fault_def)
  from get_unique_path_returns [OF this, of old_file_path new_file_path w]
  obtain p w' where r: "get_unique_path no_fault old_file_path new_file_path w = Inr (p, w')"
    by blast
  have c: "\<exists>p w'. get_unique_path no_fault old_file_path new_file_path w = Inr (p, w')
        \<and> path_parent p = path_parent new_file_path"
    using r a [OF r] by blast
  show ?thesis using a b c by blast
qed

theorem get_unique_path_same_parent_witness:
  "get_unique_path no_fault [''r'', ''a.txt''] [''r'', ''b.txt''] (module_init two_file_tree)
     = Inr ([''r'', ''b_1.txt''],
            (module_init two_file_tree)
              \<lparr>conflict_log := [''Renaming: /r/a.txt -> b_1.txt to avoid conflict''],
               reserved_paths := {|[''r'', ''b_1.txt'']|}\<rparr>)
   \<and> path_parent [''r'', ''b_1.txt''] = path_parent [''r'', ''b.txt'']
   \<and> path_parent [''r'', ''b.txt''] = [''r'']"
proof -
  have a: "get_unique_path no_fault [''r'', ''a.txt''] [''r'', ''b.txt''] (module_init two_file_tree)
     = Inr ([''r'', ''b_1.txt''],
            (module_init two_file_tree)
              \<lparr>conflict_log := [''Renaming: /r/a.txt -> b_1.txt to avoid conflict''],
               reserved_paths := {|[''r'', ''b_1.txt'']|}\<rparr>)"
    by code_simp
  have b: "path_parent [''r'', ''b.txt''] = [''r'']" by (simp add: path_parent_def)
  show ?thesis
    using get_unique_path_same_parent [of no_fault "[''r'', ''a.txt'']" "[''r'', ''b.txt'']"
        "module_init two_file_tree"] a b
    by simp
qed

section \<open>Properties of the engine\<close>

text \<open>What happens to one entry that has a mapping and a valid new name.\<close>

definition entry_action ::
  "os_env \<Rightarrow> bool \<Rightarrow> string \<Rightarrow> string \<Rightarrow> path \<Rightarrow> path \<Rightarrow> world \<Rightarrow> world" where
  "entry_action env dry_run kind label old_path new_path w1 =
     (let w2 = print (mode_label dry_run @ label @ path_str old_path @ '' -> '' @ path_name new_path) w1
      in if \<not> dry_run then try_rename env kind old_path new_path w2 else w2)"

lemma rename_file_cases:
  assumes "rename_file env file_map dry_run root file_name (c, w) = (r, c', w')"
  shows "(r = None \<and> c' = c \<and> w' = w)
       \<or> (\<exists>e. r = Some e \<and> c' = c \<and> w' = w)
       \<or> (\<exists>desired p w1. r = None \<and> c' = c + 1
             \<and> get_unique_path env (joinpath root file_name) desired w = Inr (p, w1)
             \<and> w' = entry_action env dry_run ''file'' '' File: '' (joinpath root file_name) p w1)"
  using assms unfolding rename_file_def entry_action_def Let_def
  by (auto split: option.splits sum.splits prod.splits if_splits)

lemma rename_dir_cases:
  assumes "rename_dir env folder_map dry_run root dir_name (c, w) = (r, c', w')"
  shows "(r = None \<and> c' = c \<and> w' = w)
       \<or> (\<exists>e. r = Some e \<and> c' = c \<and> w' = w)
       \<or> (\<exists>desired p w1. r = None \<and> c' = c + 1
             \<and> get_unique_path env (joinpath root dir_name) desired w = Inr (p, w1)
             \<and> w' = entry_action env dry_run ''folder'' '' Folder: '' (joinpath root dir_name) p w1)"
  using assms unfolding rename_dir_def entry_action_def Let_def
  by (auto split: option.splits sum.splits prod.splits if_splits)

lemma for_each_invariant:
  assumes "for_each body xs s = (r, s')" and "Q s"
    and "\<And>x s r s'. Q s \<Longrightarrow> body x s = (r, s') \<Longrightarrow> Q s'"
  shows "Q s'"
  using assms(1,2)
proof (induction xs arbitrary: s)
  case Nil
  then show ?case by simp
next
  case (Cons x xs)
  obtain r1 s1 where b: "body x s = (r1, s1)" by (cases "body x s")
  have q: "Q s1" using assms(3) Cons.prems(2) b by blast
  show ?case
  proof (cases r1)
    case None
    then have "for_each body xs s1 = (r, s')" using Cons.prems(1) b by simp
    then show ?thesis using Cons.IH q by blast
  next
    case (Some e)
    then have "s' = s1" using Cons.prems(1) b by simp
    then show ?thesis using q by simp
  qed
qed

text \<open>
  A property of the state that printing keeps, and that the handling of one entry keeps,
  holds after one level of the walk and after the whole run.
\<close>

lemma rename_level_invariant:
  assumes res: "rename_level env file_map folder_map dry_run triple (cs, w) = (r, cs', w')"
    and init: "P w"
    and entry: "\<And>w kind label old desired p w1. P w \<Longrightarrow> get_unique_path env old desired w = Inr (p, w1)
                  \<Longrightarrow> P (entry_action env dry_run kind label old p w1)"
  shows "P w'"
proof -
  obtain root dirs files where t: "triple = (root, dirs, files)" by (cases triple)
  obtain fc dc where c: "cs = (fc, dc)" by (cases cs)
  obtain r1 fc1 w1 where f1: "for_each (rename_file env file_map dry_run root) files (fc, w) = (r1, fc1, w1)"
    by (cases "for_each (rename_file env file_map dry_run root) files (fc, w)")
  have "(\<lambda>s. P (snd s)) (fc1, w1)"
  proof (rule for_each_invariant [OF f1])
    show "P (snd (fc, w))" using init by simp
  next
    fix x s r s'
    assume "P (snd s)" and "rename_file env file_map dry_run root x s = (r, s')"
    then show "P (snd s')"
      using rename_file_cases [of env file_map dry_run root x "fst s" "snd s" r "fst s'" "snd s'"] entry
      by auto
  qed
  then have pw1: "P w1" by simp
  obtain r2 dc2 w2 where f2: "for_each (rename_dir env folder_map dry_run root) dirs (dc, w1) = (r2, dc2, w2)"
    by (cases "for_each (rename_dir env folder_map dry_run root) dirs (dc, w1)")
  have "(\<lambda>s. P (snd s)) (dc2, w2)"
  proof (rule for_each_invariant [OF f2])
    show "P (snd (dc, w1))" using pw1 by simp
  next
    fix x s r s'
    assume "P (snd s)" and "rename_dir env folder_map dry_run root x s = (r, s')"
    then show "P (snd s')"
      using rename_dir_cases [of env folder_map dry_run root x "fst s" "snd s" r "fst s'" "snd s'"] entry
      by auto
  qed
  then have pw2: "P w2" by simp
  show ?thesis
    using res pw1 pw2 f1 f2 unfolding rename_level_def t c
    by (cases r1) auto
qed

lemma rename_items_invariant:
  assumes init: "P w"
    and out: "\<And>w ls. P w \<Longrightarrow> P (w\<lparr>stdout := stdout w @ ls\<rparr>)"
    and entry: "\<And>w kind label old desired p w1. P w \<Longrightarrow> get_unique_path env old desired w = Inr (p, w1)
                  \<Longrightarrow> P (entry_action env dry_run kind label old p w1)"
  shows "P (snd (rename_items env root_directory files_csv folders_csv dry_run w))"
proof -
  define w1 where "w1 = print (mode_label dry_run @ '' Loaded '' @ str_nat (length (build_map files_csv))
                        @ '' file mappings and '' @ str_nat (length (build_map folders_csv))
                        @ '' folder mappings.'') w"
  have p1: "P w1" unfolding w1_def print_def by (rule out [OF init])
  obtain r cs w2 where l: "for_each (rename_level env (build_map files_csv) (build_map folders_csv) dry_run)
                (walk_bottom_up (disk w1) root_directory) ((0, 0), w1) = (r, cs, w2)"
    by (cases "for_each (rename_level env (build_map files_csv) (build_map folders_csv) dry_run)
                (walk_bottom_up (disk w1) root_directory) ((0, 0), w1)")
  have "(\<lambda>s. P (snd s)) (cs, w2)"
  proof (rule for_each_invariant [OF l])
    show "P (snd ((0, 0), w1))" using p1 by simp
  next
    fix x s r s'
    assume "P (snd s)" and "rename_level env (build_map files_csv) (build_map folders_csv) dry_run x s = (r, s')"
    then show "P (snd s')"
      using rename_level_invariant [of env "build_map files_csv" "build_map folders_csv" dry_run x "fst s" "snd s" r "fst s'" "snd s'" P] entry
      by simp
  qed
  then have p2: "P w2" by simp
  have p3: "P (print_summary w2)" unfolding print_summary_def by (rule out [OF p2])
  have "rename_items env root_directory files_csv folders_csv dry_run w =
        (case r of Some e \<Rightarrow> (Inl e, w2) | None \<Rightarrow> (Inr cs, print_summary w2))"
    unfolding rename_items_def Let_def w1_def [symmetric] l by (cases r) simp_all
  then show ?thesis using p2 p3 by (cases r) simp_all
qed

lemma try_rename_frame:
  "reserved_paths (try_rename env kind old new w) = reserved_paths w"
  "conflict_log (try_rename env kind old new w) = conflict_log w"
  "stdout (try_rename env kind old new w) = stdout w"
  "rename_calls (try_rename env kind old new w) = rename_calls w @ [(old, new)]"
  by (simp_all add: try_rename_def Let_def split: sum.splits)

lemma entry_action_dry:
  "entry_action env True kind label old p w1 =
     w1\<lparr>stdout := stdout w1 @ [mode_label True @ label @ path_str old @ '' -> '' @ path_name p]\<rparr>"
  by (simp add: entry_action_def print_def)

lemma entry_action_frame:
  "reserved_paths (entry_action env dry_run kind label old p w1) = reserved_paths w1"
  "conflict_log (entry_action env dry_run kind label old p w1) = conflict_log w1"
  by (simp_all add: entry_action_def Let_def try_rename_frame print_def)

text \<open>
  Two calls of \<^verbatim>\<open>rename_items\<close> in one process, both in preview mode, on a directory
  \<^verbatim>\<open>/r\<close> holding one file \<^verbatim>\<open>a.txt\<close>, with the file table \<^verbatim>\<open>a,b\<close>. The second call
  starts in the state that the first one leaves.
\<close>

definition one_file_tree :: fsnode where
  "one_file_tree = Dir [(''r'', Dir [(''a.txt'', File)])]"

definition a_to_b :: "(pyval \<times> pyval) list" where
  "a_to_b = [(PStr ''a'', PStr ''b'')]"

definition first_preview :: "(string + nat \<times> nat) \<times> world" where
  "first_preview = rename_items no_fault [''r''] a_to_b [] True (module_init one_file_tree)"

definition second_preview :: "(string + nat \<times> nat) \<times> world" where
  "second_preview = rename_items no_fault [''r''] a_to_b [] True (snd first_preview)"

text \<open>
  Claim C5, as stated, fails: \<^verbatim>\<open>rename_items\<close> does not empty \<^verbatim>\<open>reserved_paths\<close>, so the
  second call of the example starts with the path that the first call reserved.
\<close>

theorem reserved_paths_shared_across_runs:
  "reserved_paths (snd first_preview) = {|[''r'', ''b.txt'']|}
   \<and> reserved_paths (snd first_preview) \<noteq> {||}"
  by code_simp

text \<open>
  Claim C5, amended. \<^verbatim>\<open>reserved_paths\<close> is empty when the module has just been loaded; a
  run of \<^verbatim>\<open>rename_items\<close> only adds to the set it finds, whatever the mode and however the
  run ends; and each call of \<^verbatim>\<open>get_unique_path\<close> that returns adds exactly the path it
  returns (a call that raises changes nothing).
\<close>

theorem reserved_paths_lifecycle:
  "reserved_paths (module_init t) = {||}
   \<and> reserved_paths w |\<subseteq>|
       reserved_paths (snd (rename_items env root_directory files_csv folders_csv dry_run w))
   \<and> (\<forall>p w1. get_unique_path env old_file_path new_file_path w = Inr (p, w1)
          \<longrightarrow> reserved_paths w1 = finsert p (reserved_paths w))
   \<and> (\<exists>p w1. get_unique_path no_fault old_file_path new_file_path w = Inr (p, w1)
          \<and> reserved_paths w1 = finsert p (reserved_paths w))"
proof -
  have grow: "reserved_paths w |\<subseteq>|
       reserved_paths (snd (rename_items env root_directory files_csv folders_csv dry_run w))"
  proof (rule rename_items_invariant [where P = "\<lambda>w'. reserved_paths w |\<subseteq>| reserved_paths w'"])
    show "reserved_paths w |\<subseteq>| reserved_paths w" by simp
  next
    fix w' ls assume "reserved_paths w |\<subseteq>| reserved_paths w'"
    then show "reserved_paths w |\<subseteq>| reserved_paths (w'\<lparr>stdout := stdout w' @ ls\<rparr>)" by simp
  next
    fix w' kind label old desired p w1
    assume a: "reserved_paths w |\<subseteq>| reserved_paths w'" and g: "get_unique_path env old desired w' = Inr (p, w1)"
    have "reserved_paths w1 = finsert p (reserved_paths w')" using get_unique_path_fresh(2) [OF g] .
    then show "reserved_paths w |\<subseteq>| reserved_paths (entry_action env dry_run kind label old p w1)"
      using a by (auto simp: entry_action_frame)
  qed
  have step: "\<forall>p w1. get_unique_path env old_file_path new_file_path w = Inr (p, w1)
          \<longrightarrow> reserved_paths w1 = finsert p (reserved_paths w)"
    using get_unique_path_fresh(2) by blast
  have "\<forall>q. stat_error no_fault q = None" by (simp add: no_fault_def)
  from get_unique_path_returns [OF this, of old_file_path new_file_path w]
  obtain p w1 where r: "get_unique_path no_fault old_file_path new_file_path w = Inr (p, w1)"
    by blast
  have ret: "\<exists>p w1. get_unique_path no_fault old_file_path new_file_path w = Inr (p, w1)
          \<and> reserved_paths w1 = finsert p (reserved_paths w)"
    using r get_unique_path_fresh(2) [OF r] by blast
  have init: "reserved_paths (module_init t) = {||}" by (simp add: module_init_def)
  show ?thesis using init grow step ret by blast
qed

theorem reserved_paths_lifecycle_witness:
  "get_unique_path no_fault [''r'', ''a.txt''] [''r'', ''b.txt''] (module_init one_file_tree)
     = Inr ([''r'', ''b.txt''], (module_init one_file_tree)\<lparr>reserved_paths := {|[''r'', ''b.txt'']|}\<rparr>)
   \<and> reserved_paths ((module_init one_file_tree)\<lparr>reserved_paths := {|[''r'', ''b.txt'']|}\<rparr>)
       = finsert [''r'', ''b.txt''] (reserved_paths (module_init one_file_tree))
   \<and> reserved_paths (module_init one_file_tree) = {||}
   \<and> reserved_paths (snd first_preview) |\<subseteq>| reserved_paths (snd second_preview)
   \<and> reserved_paths (snd second_preview) = {|[''r'', ''b.txt''], [''r'', ''b_1.txt'']|}"
proof -
  have g: "get_unique_path no_fault [''r'', ''a.txt''] [''r'', ''b.txt''] (module_init one_file_tree)
     = Inr ([''r'', ''b.txt''], (module_init one_file_tree)\<lparr>reserved_paths := {|[''r'', ''b.txt'']|}\<rparr>)"
    by code_simp
  have s: "reserved_paths (snd second_preview) = {|[''r'', ''b.txt''], [''r'', ''b_1.txt'']|}"
    by code_simp
  note inst1 = reserved_paths_lifecycle [where t = one_file_tree and w = "module_init one_file_tree"
      and env = no_fault and old_file_path = "[''r'', ''a.txt'']" and new_file_path = "[''r'', ''b.txt'']"
      and root_directory = "[''r'']" and files_csv = a_to_b and folders_csv = "[]" and dry_run = True]
  note inst2 = reserved_paths_lifecycle [where t = one_file_tree and w = "snd first_preview"
      and env = no_fault and old_file_path = "[''r'', ''a.txt'']" and new_file_path = "[''r'', ''b.txt'']"
      and root_directory = "[''r'']" and files_csv = a_to_b and folders_csv = "[]" and dry_run = True]
  have sub: "reserved_paths (snd first_preview) |\<subseteq>| reserved_paths (snd second_preview)"
    using inst2 unfolding second_preview_def by blast
  have add: "reserved_paths ((module_init one_file_tree)\<lparr>reserved_paths := {|[''r'', ''b.txt'']|}\<rparr>)
       = finsert [''r'', ''b.txt''] (reserved_paths (module_init one_file_tree))"
    using inst1 g by blast
  have init: "reserved_paths (module_init one_file_tree) = {||}" using inst1 by blast
  show ?thesis using g add init sub s by blast
qed

text \<open>
  A preview run and a live run on the same directory \<^verbatim>\<open>/r\<close>, which lists \<^verbatim>\<open>b.txt\<close> before
  \<^verbatim>\<open>a.txt\<close>, with the file table \<^verbatim>\<open>a,b\<close> and \<^verbatim>\<open>b,c\<close>, each from a freshly loaded module.
\<close>

definition a_to_b_to_c :: "(pyval \<times> pyval) list" where
  "a_to_b_to_c = [(PStr ''a'', PStr ''b''), (PStr ''b'', PStr ''c'')]"

definition preview_run :: "(string + nat \<times> nat) \<times> world" where
  "preview_run = rename_items no_fault [''r''] a_to_b_to_c [] True (module_init two_file_tree)"

definition live_run :: "(string + nat \<times> nat) \<times> world" where
  "live_run = rename_items no_fault [''r''] a_to_b_to_c [] False (module_init two_file_tree)"

lemma rename_file_mode_independent:
  "fst (rename_file env file_map True root file_name (c, w))
     = fst (rename_file env file_map False root file_name (c, w))"
  "fst (snd (rename_file env file_map True root file_name (c, w)))
     = fst (snd (rename_file env file_map False root file_name (c, w)))"
  "reserved_paths (snd (snd (rename_file env file_map True root file_name (c, w))))
     = reserved_paths (snd (snd (rename_file env file_map False root file_name (c, w))))"
  "conflict_log (snd (snd (rename_file env file_map True root file_name (c, w))))
     = conflict_log (snd (snd (rename_file env file_map False root file_name (c, w))))"
  by (simp_all add: rename_file_def Let_def try_rename_frame print_def
        split: option.splits sum.splits prod.splits)

lemma rename_dir_mode_independent:
  "fst (rename_dir env folder_map True root dir_name (c, w))
     = fst (rename_dir env folder_map False root dir_name (c, w))"
  "fst (snd (rename_dir env folder_map True root dir_name (c, w)))
     = fst (snd (rename_dir env folder_map False root dir_name (c, w)))"
  "reserved_paths (snd (snd (rename_dir env folder_map True root dir_name (c, w))))
     = reserved_paths (snd (snd (rename_dir env folder_map False root dir_name (c, w))))"
  "conflict_log (snd (snd (rename_dir env folder_map True root dir_name (c, w))))
     = conflict_log (snd (snd (rename_dir env folder_map False root dir_name (c, w))))"
  by (simp_all add: rename_dir_def Let_def try_rename_frame print_def
        split: option.splits sum.splits prod.splits)

lemma preview_frame:
  "disk (snd (rename_items env root_directory files_csv folders_csv True w)) = disk w
   \<and> rename_calls (snd (rename_items env root_directory files_csv folders_csv True w)) = rename_calls w
   \<and> error_log (snd (rename_items env root_directory files_csv folders_csv True w)) = error_log w"
proof (rule rename_items_invariant
    [where P = "\<lambda>w'. disk w' = disk w \<and> rename_calls w' = rename_calls w \<and> error_log w' = error_log w"])
  show "disk w = disk w \<and> rename_calls w = rename_calls w \<and> error_log w = error_log w" by simp
next
  fix w' ls
  assume "disk w' = disk w \<and> rename_calls w' = rename_calls w \<and> error_log w' = error_log w"
  then show "disk (w'\<lparr>stdout := stdout w' @ ls\<rparr>) = disk w
     \<and> rename_calls (w'\<lparr>stdout := stdout w' @ ls\<rparr>) = rename_calls w
     \<and> error_log (w'\<lparr>stdout := stdout w' @ ls\<rparr>) = error_log w" by simp
next
  fix w' kind label old desired p w1
  assume a: "disk w' = disk w \<and> rename_calls w' = rename_calls w \<and> error_log w' = error_log w"
    and g: "get_unique_path env old desired w' = Inr (p, w1)"
  show "disk (entry_action env True kind label old p w1) = disk w
     \<and> rename_calls (entry_action env True kind label old p w1) = rename_calls w
     \<and> error_log (entry_action env True kind label old p w1) = error_log w"
    using a get_unique_path_fresh(3,4,6) [OF g] by (simp add: entry_action_dry)
qed

text \<open>
  Claim C3, as stated, fails in its second half. In the example the live run has renamed
  \<^verbatim>\<open>b.txt\<close> away when it comes to \<^verbatim>\<open>a.txt\<close>, so it gives \<^verbatim>\<open>a.txt\<close> the name \<^verbatim>\<open>b.txt\<close> without
  a conflict; the preview still sees \<^verbatim>\<open>b.txt\<close> on disk, plans \<^verbatim>\<open>b_1.txt\<close> and logs a conflict.
\<close>

theorem preview_differs_from_live:
  "conflict_log (snd preview_run) = [''Renaming: /r/a.txt -> b_1.txt to avoid conflict'']
   \<and> conflict_log (snd live_run) = []
   \<and> reserved_paths (snd preview_run) = {|[''r'', ''c.txt''], [''r'', ''b_1.txt'']|}
   \<and> reserved_paths (snd live_run) = {|[''r'', ''c.txt''], [''r'', ''b.txt'']|}"
  by code_simp

text \<open>
  Claim C3, amended. A preview run leaves the file system as it is and calls
  \<^verbatim>\<open>Path.rename\<close> not once. For a single entry, handled in the same state, preview and live
  mode agree on the exception raised, the counter, the reserved paths and the conflict log
  (for files and for folders): the deconflictor runs in both modes. Over a whole run the
  two modes need not agree, since a live run's renames change what exists.
\<close>

theorem preview_never_mutates:
  "disk (snd (rename_items env root_directory files_csv folders_csv True w)) = disk w
   \<and> rename_calls (snd (rename_items env root_directory files_csv folders_csv True w)) = rename_calls w
   \<and> fst (rename_file env file_map True root name (c, w))
       = fst (rename_file env file_map False root name (c, w))
   \<and> fst (snd (rename_file env file_map True root name (c, w)))
       = fst (snd (rename_file env file_map False root name (c, w)))
   \<and> reserved_paths (snd (snd (rename_file env file_map True root name (c, w))))
       = reserved_paths (snd (snd (rename_file env file_map False root name (c, w))))
   \<and> conflict_log (snd (snd (rename_file env file_map True root name (c, w))))
       = conflict_log (snd (snd (rename_file env file_map False root name (c, w))))
   \<and> fst (rename_dir env folder_map True root name (c, w))
       = fst (rename_dir env folder_map False root name (c, w))
   \<and> fst (snd (rename_dir env folder_map True root name (c, w)))
       = fst (snd (rename_dir env folder_map False root name (c, w)))
   \<and> reserved_paths (snd (snd (rename_dir env folder_map True root name (c, w))))
       = reserved_paths (snd (snd (rename_dir env folder_map False root name (c, w))))
   \<and> conflict_log (snd (snd (rename_dir env folder_map True root name (c, w))))
       = conflict_log (snd (snd (rename_dir env folder_map False root name (c, w))))"
  using preview_frame [of env root_directory files_csv folders_csv w]
    rename_file_mode_independent [of env file_map root name c w]
    rename_dir_mode_independent [of env folder_map root name c w]
  by simp

text \<open>
  Claim C4, as stated, fails: the second of two preview calls in one process finds the
  destination of the first reserved, so it plans \<^verbatim>\<open>b_1.txt\<close> instead of \<^verbatim>\<open>b.txt\<close> and reports
  a conflict that the first call did not report.
\<close>

theorem preview_depends_on_module_state:
  "stdout (snd first_preview) =
     [''[DRY RUN] Loaded 1 file mappings and 0 folder mappings.'',
      ''[DRY RUN] File: /r/a.txt -> b.txt'']
   \<and> conflict_log (snd first_preview) = []
   \<and> drop (length (stdout (snd first_preview))) (stdout (snd second_preview)) =
     [''[DRY RUN] Loaded 1 file mappings and 0 folder mappings.'',
      ''[DRY RUN] File: /r/a.txt -> b_1.txt'',
      CHR 0x0A # ''--- Warning: Rename Conflicts ---'',
      ''Renaming: /r/a.txt -> b_1.txt to avoid conflict'',
      [] ]
   \<and> conflict_log (snd second_preview) = [''Renaming: /r/a.txt -> b_1.txt to avoid conflict'']
   \<and> fst first_preview = Inr (1, 0) \<and> fst second_preview = Inr (1, 0)"
  by code_simp

text \<open>
  Claim C4, amended. A preview run changes nothing but the conflict log, the reserved paths
  and the printed lines. Once these three are put back to what they were, a second preview
  run with the same tables gives the same result and the same final state as the first.
\<close>

theorem preview_repeatable_from_same_state:
  "rename_items env root_directory files_csv folders_csv True
     ((snd (rename_items env root_directory files_csv folders_csv True w))
        \<lparr>conflict_log := conflict_log w, reserved_paths := reserved_paths w, stdout := stdout w\<rparr>)
   = rename_items env root_directory files_csv folders_csv True w"
proof -
  let ?w' = "snd (rename_items env root_directory files_csv folders_csv True w)"
  have "?w'\<lparr>conflict_log := conflict_log w, reserved_paths := reserved_paths w, stdout := stdout w\<rparr> = w"
    using preview_frame [of env root_directory files_csv folders_csv w]
    by (intro world.equality) simp_all
  then show ?thesis by simp
qed

lemma entry_action_calls:
  "rename_calls (entry_action env dry_run kind label old p w1)
     = rename_calls w1 @ (if dry_run then [] else [(old, p)])"
  by (simp add: entry_action_def Let_def try_rename_frame print_def)

text \<open>
  A sequence of calls of \<^verbatim>\<open>get_unique_path\<close> in one run. Each call comes with the file
  system as it is at the time of the call, since the run may rename entries between two
  calls; the module state passes from each call to the next. An exception ends the
  sequence, as it ends the run. The result lists the paths returned.
\<close>

fun get_unique_path_calls ::
  "os_env \<Rightarrow> (fsnode \<times> path \<times> path) list \<Rightarrow> world \<Rightarrow> path list \<times> world" where
  "get_unique_path_calls env [] w = ([], w)"
| "get_unique_path_calls env ((t, old_file_path, new_file_path) # calls) w =
     (case get_unique_path env old_file_path new_file_path (w\<lparr>disk := t\<rparr>) of
        Inl e \<Rightarrow> ([], w)
      | Inr (p, w1) \<Rightarrow>
          (case get_unique_path_calls env calls w1 of (ps, w2) \<Rightarrow> (p # ps, w2)))"

lemma get_unique_path_calls_spec:
  "distinct (fst (get_unique_path_calls env calls w))
   \<and> list_all2 (\<lambda>call p. \<not> fs_exists (fst call) p)
        (take (length (fst (get_unique_path_calls env calls w))) calls)
        (fst (get_unique_path_calls env calls w))
   \<and> fset (reserved_paths w) \<inter> set (fst (get_unique_path_calls env calls w)) = {}
   \<and> fset (reserved_paths (snd (get_unique_path_calls env calls w)))
        = fset (reserved_paths w) \<union> set (fst (get_unique_path_calls env calls w))"
proof (induction calls arbitrary: w)
  case Nil
  show ?case by simp
next
  case (Cons call calls)
  obtain t old new where c: "call = (t, old, new)" by (cases call)
  show ?case
  proof (cases "get_unique_path env old new (w\<lparr>disk := t\<rparr>)")
    case (Inl e)
    then show ?thesis using c by simp
  next
    case (Inr r)
    obtain p w1 where r: "r = (p, w1)" by (cases r)
    have g: "get_unique_path env old new (w\<lparr>disk := t\<rparr>) = Inr (p, w1)" using Inr r by simp
    obtain ps w2 where rest: "get_unique_path_calls env calls w1 = (ps, w2)"
      by (cases "get_unique_path_calls env calls w1")
    have fr: "free_path (w\<lparr>disk := t\<rparr>) p" and res: "reserved_paths w1 = finsert p (reserved_paths w)"
      using get_unique_path_fresh(1,2) [OF g] by simp_all
    have ih: "distinct ps
       \<and> list_all2 (\<lambda>call p. \<not> fs_exists (fst call) p) (take (length ps) calls) ps
       \<and> fset (reserved_paths w1) \<inter> set ps = {}
       \<and> fset (reserved_paths w2) = fset (reserved_paths w1) \<union> set ps"
      using Cons.IH [of w1] rest by simp
    have all: "get_unique_path_calls env (call # calls) w = (p # ps, w2)"
      using c g rest by simp
    have "p \<notin> set ps" using ih res by auto
    moreover have "\<not> fs_exists t p" and "p \<notin> fset (reserved_paths w)"
      using fr by (simp_all add: free_path_def)
    ultimately show ?thesis
      unfolding all using ih res c by auto
  qed
qed

lemma get_unique_path_calls_length:
  assumes "\<forall>q. stat_error env q = None"
  shows "length (fst (get_unique_path_calls env calls w)) = length calls"
proof (induction calls arbitrary: w)
  case Nil
  show ?case by simp
next
  case (Cons call calls)
  obtain t old new where c: "call = (t, old, new)" by (cases call)
  from get_unique_path_returns [OF assms, of old new "w\<lparr>disk := t\<rparr>"]
  obtain p w1 where g: "get_unique_path env old new (w\<lparr>disk := t\<rparr>) = Inr (p, w1)" by blast
  obtain ps w2 where rest: "get_unique_path_calls env calls w1 = (ps, w2)"
    by (cases "get_unique_path_calls env calls w1")
  have "length ps = length calls" using Cons.IH [of w1] rest by simp
  then show ?case using c g rest by simp
qed

lemma preview_reserves_absent_paths:
  "disk (snd (rename_items env root_directory files_csv folders_csv True w)) = disk w \<and>
   (\<forall>p. p |\<in>| reserved_paths (snd (rename_items env root_directory files_csv folders_csv True w))
      \<longrightarrow> p |\<in>| reserved_paths w \<or> \<not> fs_exists (disk w) p)"
proof (rule rename_items_invariant
    [where P = "\<lambda>w'. disk w' = disk w \<and>
       (\<forall>p. p |\<in>| reserved_paths w' \<longrightarrow> p |\<in>| reserved_paths w \<or> \<not> fs_exists (disk w) p)"])
  show "disk w = disk w \<and> (\<forall>p. p |\<in>| reserved_paths w \<longrightarrow> p |\<in>| reserved_paths w \<or> \<not> fs_exists (disk w) p)"
    by simp
next
  fix w' ls
  assume "disk w' = disk w \<and> (\<forall>p. p |\<in>| reserved_paths w' \<longrightarrow> p |\<in>| reserved_paths w \<or> \<not> fs_exists (disk w) p)"
  then show "disk (w'\<lparr>stdout := stdout w' @ ls\<rparr>) = disk w \<and>
     (\<forall>p. p |\<in>| reserved_paths (w'\<lparr>stdout := stdout w' @ ls\<rparr>) \<longrightarrow> p |\<in>| reserved_paths w \<or> \<not> fs_exists (disk w) p)"
    by simp
next
  fix w' kind label old desired p w1
  assume a: "disk w' = disk w \<and> (\<forall>p. p |\<in>| reserved_paths w' \<longrightarrow> p |\<in>| reserved_paths w \<or> \<not> fs_exists (disk w) p)"
    and g: "get_unique_path env old desired w' = Inr (p, w1)"
  have "\<not> fs_exists (disk w) p"
    using get_unique_path_fresh(1) [OF g] a by (simp add: free_path_def)
  then show "disk (entry_action env True kind label old p w1) = disk w \<and>
     (\<forall>q. q |\<in>| reserved_paths (entry_action env True kind label old p w1)
        \<longrightarrow> q |\<in>| reserved_paths w \<or> \<not> fs_exists (disk w) q)"
    using a get_unique_path_fresh(2,3) [OF g] by (auto simp: entry_action_dry)
qed

lemma rename_targets_distinct:
  "\<exists>calls. rename_calls (snd (rename_items env root_directory files_csv folders_csv dry_run w))
             = rename_calls w @ calls
     \<and> distinct (map snd calls)
     \<and> snd ` set calls \<subseteq> fset (reserved_paths (snd (rename_items env root_directory files_csv folders_csv dry_run w)))"
proof (rule rename_items_invariant
    [where P = "\<lambda>w'. \<exists>calls. rename_calls w' = rename_calls w @ calls \<and> distinct (map snd calls)
                  \<and> snd ` set calls \<subseteq> fset (reserved_paths w')"])
  show "\<exists>calls. rename_calls w = rename_calls w @ calls \<and> distinct (map snd calls)
                  \<and> snd ` set calls \<subseteq> fset (reserved_paths w)"
    by (intro exI[of _ "[]"]) simp
next
  fix w' ls
  assume "\<exists>calls. rename_calls w' = rename_calls w @ calls \<and> distinct (map snd calls)
                  \<and> snd ` set calls \<subseteq> fset (reserved_paths w')"
  then show "\<exists>calls. rename_calls (w'\<lparr>stdout := stdout w' @ ls\<rparr>) = rename_calls w @ calls \<and> distinct (map snd calls)
                  \<and> snd ` set calls \<subseteq> fset (reserved_paths (w'\<lparr>stdout := stdout w' @ ls\<rparr>))"
    by simp
next
  fix w' kind label old desired p w1
  assume "\<exists>calls. rename_calls w' = rename_calls w @ calls \<and> distinct (map snd calls)
                  \<and> snd ` set calls \<subseteq> fset (reserved_paths w')"
    and g: "get_unique_path env old desired w' = Inr (p, w1)"
  then obtain calls where c: "rename_calls w' = rename_calls w @ calls" "distinct (map snd calls)"
      "snd ` set calls \<subseteq> fset (reserved_paths w')" by blast
  have fr: "p |\<notin>| reserved_paths w'" using get_unique_path_fresh(1) [OF g] by (simp add: free_path_def)
  have res: "reserved_paths w1 = finsert p (reserved_paths w')" and rc: "rename_calls w1 = rename_calls w'"
    using get_unique_path_fresh(2,6) [OF g] by simp_all
  let ?new = "calls @ (if dry_run then [] else [(old, p)])"
  have 1: "rename_calls (entry_action env dry_run kind label old p w1) = rename_calls w @ ?new"
    using c(1) rc by (simp add: entry_action_calls)
  have 2: "distinct (map snd ?new)" using c(2,3) fr by auto
  have 3: "snd ` set ?new \<subseteq> fset (reserved_paths (entry_action env dry_run kind label old p w1))"
    using c(3) res by (auto simp: entry_action_frame)
  show "\<exists>calls. rename_calls (entry_action env dry_run kind label old p w1) = rename_calls w @ calls
          \<and> distinct (map snd calls)
          \<and> snd ` set calls \<subseteq> fset (reserved_paths (entry_action env dry_run kind label old p w1))"
    using 1 2 3 by blast
qed

text \<open>
  The two calls that the live run of the example makes: the second call sees the tree in
  which \<^verbatim>\<open>b.txt\<close> has become \<^verbatim>\<open>c.txt\<close>.
\<close>

definition live_calls :: "(fsnode \<times> path \<times> path) list" where
  "live_calls =
     [(two_file_tree, [''r'', ''b.txt''], [''r'', ''c.txt'']),
      (Dir [(''r'', Dir [(''a.txt'', File), (''c.txt'', File)])], [''r'', ''a.txt''], [''r'', ''b.txt''])]"

text \<open>
  Claim C1, as stated, fails in its second half: in the live run of the example the
  deconflictor returns \<^verbatim>\<open>/r/b.txt\<close> for \<^verbatim>\<open>a.txt\<close>, a path that existed before the run
  started (the run itself has renamed that file away by then).
\<close>

theorem returned_path_existed_before_run:
  "fs_exists (disk (module_init two_file_tree)) [''r'', ''b.txt'']
   \<and> rename_calls (snd live_run) =
       [([''r'', ''b.txt''], [''r'', ''c.txt'']), ([''r'', ''a.txt''], [''r'', ''b.txt''])]
   \<and> [''r'', ''b.txt''] |\<in>| reserved_paths (snd live_run)
   \<and> fst (get_unique_path_calls no_fault live_calls (module_init two_file_tree))
       = [[''r'', ''c.txt''], [''r'', ''b.txt'']]"
  by code_simp

text \<open>
  Claim C1, amended. For any sequence of calls of \<^verbatim>\<open>get_unique_path\<close> in one run, whatever
  the file system is at each call, the returned paths are pairwise distinct, none of them
  exists on disk at the time of the call that returns it, and none was reserved before the
  sequence; where \<^verbatim>\<open>exists()\<close> raises nothing, every call of the sequence returns such a
  path. In a preview run, where the file system does not change, every path reserved by
  the run is therefore absent from the file system as it was before the run. In any run,
  the targets of the rename calls are pairwise distinct.
\<close>

theorem deconfliction_uniqueness:
  "distinct (fst (get_unique_path_calls env calls w))
   \<and> list_all2 (\<lambda>call p. \<not> fs_exists (fst call) p)
        (take (length (fst (get_unique_path_calls env calls w))) calls)
        (fst (get_unique_path_calls env calls w))
   \<and> fset (reserved_paths w) \<inter> set (fst (get_unique_path_calls env calls w)) = {}
   \<and> list_all2 (\<lambda>call p. \<not> fs_exists (fst call) p) calls
        (fst (get_unique_path_calls no_fault calls w))
   \<and> (\<forall>p. p |\<in>| reserved_paths (snd (rename_items env root_directory files_csv folders_csv True w0))
          \<longrightarrow> p |\<in>| reserved_paths w0 \<or> \<not> fs_exists (disk w0) p)
   \<and> (\<exists>cs. rename_calls (snd (rename_items env root_directory files_csv folders_csv dry_run w0))
             = rename_calls w0 @ cs \<and> distinct (map snd cs))"
proof -
  have "\<forall>q. stat_error no_fault q = None" by (simp add: no_fault_def)
  then have len: "length (fst (get_unique_path_calls no_fault calls w)) = length calls"
    by (rule get_unique_path_calls_length)
  have all: "list_all2 (\<lambda>call p. \<not> fs_exists (fst call) p) calls
        (fst (get_unique_path_calls no_fault calls w))"
    using get_unique_path_calls_spec [of no_fault calls w] len by simp
  show ?thesis
    using get_unique_path_calls_spec [of env calls w] all
      preview_reserves_absent_paths [of env root_directory files_csv folders_csv w0]
      rename_targets_distinct [of env root_directory files_csv folders_csv dry_run w0]
    by blast
qed

theorem deconfliction_uniqueness_witness:
  "fst (get_unique_path_calls no_fault live_calls (module_init two_file_tree))
       = [[''r'', ''c.txt''], [''r'', ''b.txt'']]
   \<and> distinct (fst (get_unique_path_calls no_fault live_calls (module_init two_file_tree)))
   \<and> list_all2 (\<lambda>call p. \<not> fs_exists (fst call) p) live_calls
        (fst (get_unique_path_calls no_fault live_calls (module_init two_file_tree)))
   \<and> reserved_paths (snd preview_run) = {|[''r'', ''c.txt''], [''r'', ''b_1.txt'']|}
   \<and> \<not> fs_exists two_file_tree [''r'', ''c.txt'']
   \<and> \<not> fs_exists two_file_tree [''r'', ''b_1.txt'']"
proof -
  have a: "fst (get_unique_path_calls no_fault live_calls (module_init two_file_tree))
       = [[''r'', ''c.txt''], [''r'', ''b.txt'']]"
    by code_simp
  have b: "reserved_paths (snd preview_run) = {|[''r'', ''c.txt''], [''r'', ''b_1.txt'']|}"
    by code_simp
  have c: "\<not> fs_exists two_file_tree [''r'', ''c.txt'']" "\<not> fs_exists two_file_tree [''r'', ''b_1.txt'']"
    by code_simp+
  note inst = deconfliction_uniqueness [where calls = live_calls and w = "module_init two_file_tree"
        and env = no_fault and root_directory = "[''r'']" and files_csv = a_to_b_to_c
        and folders_csv = "[]" and ?w0.0 = "module_init two_file_tree" and dry_run = True]
  have d: "distinct (fst (get_unique_path_calls no_fault live_calls (module_init two_file_tree)))"
    using inst by blast
  have e: "list_all2 (\<lambda>call p. \<not> fs_exists (fst call) p) live_calls
        (fst (get_unique_path_calls no_fault live_calls (module_init two_file_tree)))"
    using inst by blast
  show ?thesis using a b c d e by blast
qed

text \<open>The line that a failed rename adds to the error log.\<close>

definition error_entry :: "string \<Rightarrow> path \<Rightarrow> path \<Rightarrow> string \<Rightarrow> string" where
  "error_entry kind old_path new_path cause =
     ''Failed to rename '' @ kind @ '' '' @ path_str old_path @ '' -> '' @ path_name new_path
       @ '': '' @ cause"

text \<open>The state after a rename that failed: one printed line, one call, one error entry.\<close>

definition after_failure :: "string \<Rightarrow> string \<Rightarrow> path \<Rightarrow> path \<Rightarrow> string \<Rightarrow> world \<Rightarrow> world" where
  "after_failure kind label old_path new_path cause w1 =
     w1\<lparr>error_log := error_log w1 @ [error_entry kind old_path new_path cause],
        stdout := stdout w1 @ [''[EXECUTING]'' @ label @ path_str old_path @ '' -> '' @ path_name new_path],
        rename_calls := rename_calls w1 @ [(old_path, new_path)]\<rparr>"

lemma entry_action_failure:
  assumes "os_rename (rename_error env) (disk w1) old p = Inl cause"
  shows "entry_action env False kind label old p w1 = after_failure kind label old p cause w1"
  using assms
  by (simp add: entry_action_def try_rename_def print_def Let_def mode_label_def
      after_failure_def error_entry_def)

lemma rename_file_failure:
  assumes "map_of file_map (path_stem (joinpath root name)) = Some mapped"
    and "with_name (joinpath root name) (mapped @ path_suffix (joinpath root name)) = Inr desired"
    and "get_unique_path env (joinpath root name) desired w = Inr (p, w1)"
    and "os_rename (rename_error env) (disk w1) (joinpath root name) p = Inl cause"
  shows "rename_file env file_map False root name (c, w)
         = (None, c + 1, after_failure ''file'' '' File: '' (joinpath root name) p cause w1)"
proof -
  have "rename_file env file_map False root name (c, w)
        = (None, c + 1, entry_action env False ''file'' '' File: '' (joinpath root name) p w1)"
    using assms(1-3) by (simp add: rename_file_def entry_action_def Let_def)
  then show ?thesis using entry_action_failure [OF assms(4)] by simp
qed

lemma rename_dir_failure:
  assumes "map_of folder_map name = Some mapped"
    and "with_name (joinpath root name) mapped = Inr desired"
    and "get_unique_path env (joinpath root name) desired w = Inr (p, w1)"
    and "os_rename (rename_error env) (disk w1) (joinpath root name) p = Inl cause"
  shows "rename_dir env folder_map False root name (c, w)
         = (None, c + 1, after_failure ''folder'' '' Folder: '' (joinpath root name) p cause w1)"
proof -
  have "rename_dir env folder_map False root name (c, w)
        = (None, c + 1, entry_action env False ''folder'' '' Folder: '' (joinpath root name) p w1)"
    using assms(1-3) by (simp add: rename_dir_def entry_action_def Let_def)
  then show ?thesis using entry_action_failure [OF assms(4)] by simp
qed

lemma with_name_raises: "with_name p n = Inl e \<Longrightarrow> e = ''ValueError''"
  by (auto simp: with_name_def split: if_splits)

text \<open>
  The exceptions that can leave the engine: the \<^verbatim>\<open>ValueError\<close> of \<^verbatim>\<open>with_name\<close> and an
  \<^verbatim>\<open>OSError\<close> that \<^verbatim>\<open>exists()\<close> raises. Both come before the rename of the entry is attempted.
\<close>

definition raised_before_rename :: "os_env \<Rightarrow> string \<Rightarrow> bool" where
  "raised_before_rename env e = (e = ''ValueError'' \<or> (\<exists>q. stat_error env q = Some e))"

lemma rename_file_raises:
  "rename_file env file_map dry_run root name s = (Some e, s') \<Longrightarrow> raised_before_rename env e"
  unfolding rename_file_def Let_def raised_before_rename_def
  by (auto split: option.splits sum.splits prod.splits
        dest: with_name_raises get_unique_path_raises)

lemma rename_dir_raises:
  "rename_dir env folder_map dry_run root name s = (Some e, s') \<Longrightarrow> raised_before_rename env e"
  unfolding rename_dir_def Let_def raised_before_rename_def
  by (auto split: option.splits sum.splits prod.splits
        dest: with_name_raises get_unique_path_raises)

lemma for_each_raises:
  assumes "for_each body xs s = (Some e, s')"
    and "\<And>x s s'. body x s = (Some e, s') \<Longrightarrow> Q"
  shows Q
  using assms(1)
proof (induction xs arbitrary: s)
  case Nil
  then show ?case by simp
next
  case (Cons x xs)
  obtain r1 s1 where b: "body x s = (r1, s1)" by (cases "body x s")
  show ?case
  proof (cases r1)
    case None
    then have "for_each body xs s1 = (Some e, s')" using Cons.prems b by simp
    then show ?thesis by (rule Cons.IH)
  next
    case (Some e1)
    then have "e1 = e" using Cons.prems b by simp
    then show ?thesis using assms(2) b Some by blast
  qed
qed

lemma rename_level_raises:
  assumes "rename_level env file_map folder_map dry_run triple s = (Some e, s')"
  shows "raised_before_rename env e"
proof -
  obtain root dirs files where t: "triple = (root, dirs, files)" by (cases triple)
  obtain fc dc w where s: "s = ((fc, dc), w)" by (cases s) auto
  obtain r1 fc1 w1 where f1: "for_each (rename_file env file_map dry_run root) files (fc, w) = (r1, fc1, w1)"
    by (cases "for_each (rename_file env file_map dry_run root) files (fc, w)")
  show ?thesis
  proof (cases r1)
    case (Some e1)
    then have "e1 = e" using assms f1 unfolding rename_level_def t s by simp
    then have "for_each (rename_file env file_map dry_run root) files (fc, w) = (Some e, fc1, w1)"
      using f1 Some by simp
    then show ?thesis by (rule for_each_raises) (rule rename_file_raises)
  next
    case None
    obtain r2 dc2 w2 where f2: "for_each (rename_dir env folder_map dry_run root) dirs (dc, w1) = (r2, dc2, w2)"
      by (cases "for_each (rename_dir env folder_map dry_run root) dirs (dc, w1)")
    have "r2 = Some e" using assms f1 f2 None unfolding rename_level_def t s by simp
    then have "for_each (rename_dir env folder_map dry_run root) dirs (dc, w1) = (Some e, dc2, w2)"
      using f2 by simp
    then show ?thesis by (rule for_each_raises) (rule rename_dir_raises)
  qed
qed

lemma rename_items_raises:
  assumes "fst (rename_items env root_directory files_csv folders_csv dry_run w) = Inl e"
  shows "raised_before_rename env e"
proof -
  define w1 where "w1 = print (mode_label dry_run @ '' Loaded '' @ str_nat (length (build_map files_csv))
                        @ '' file mappings and '' @ str_nat (length (build_map folders_csv))
                        @ '' folder mappings.'') w"
  obtain r cs w2 where l: "for_each (rename_level env (build_map files_csv) (build_map folders_csv) dry_run)
                (walk_bottom_up (disk w1) root_directory) ((0, 0), w1) = (r, cs, w2)"
    by (cases "for_each (rename_level env (build_map files_csv) (build_map folders_csv) dry_run)
                (walk_bottom_up (disk w1) root_directory) ((0, 0), w1)")
  have eq: "rename_items env root_directory files_csv folders_csv dry_run w =
        (case r of Some e \<Rightarrow> (Inl e, w2) | None \<Rightarrow> (Inr cs, print_summary w2))"
    unfolding rename_items_def Let_def w1_def [symmetric] l by (cases r) simp_all
  then have "r = Some e" using assms by (cases r) simp_all
  then have "for_each (rename_level env (build_map files_csv) (build_map folders_csv) dry_run)
                (walk_bottom_up (disk w1) root_directory) ((0, 0), w1) = (Some e, cs, w2)"
    using l by simp
  then show ?thesis by (rule for_each_raises) (rule rename_level_raises)
qed

text \<open>
  Claim C6. In execute mode, when the rename of a file or folder fails, the body of the loop
  ends without an exception and with the counter incremented; the error log has gained
  exactly one line, made of the original path, the name of the intended destination and the
  cause; the file system is as before the attempt; and the loop goes on with the remaining
  entries. No failure of a rename ends the run: an exception that leaves \<^verbatim>\<open>rename_items\<close> is
  the \<^verbatim>\<open>ValueError\<close> of \<^verbatim>\<open>with_name\<close> or an \<^verbatim>\<open>OSError\<close> raised by \<^verbatim>\<open>exists()\<close> in
  \<^verbatim>\<open>get_unique_path\<close>, and both are raised before the rename of the entry is attempted.
\<close>

theorem failed_rename_counted_logged_skipped:
  "(map_of file_map (path_stem (joinpath root name)) = Some mapped
      \<and> with_name (joinpath root name) (mapped @ path_suffix (joinpath root name)) = Inr desired
      \<and> get_unique_path env (joinpath root name) desired w = Inr (p, w1)
      \<and> os_rename (rename_error env) (disk w1) (joinpath root name) p = Inl cause
    \<longrightarrow> rename_file env file_map False root name (c, w)
          = (None, c + 1, after_failure ''file'' '' File: '' (joinpath root name) p cause w1)
        \<and> for_each (rename_file env file_map False root) (name # rest) (c, w)
          = for_each (rename_file env file_map False root) rest
              (c + 1, after_failure ''file'' '' File: '' (joinpath root name) p cause w1))
   \<and> (map_of folder_map name = Some mapped
      \<and> with_name (joinpath root name) mapped = Inr desired
      \<and> get_unique_path env (joinpath root name) desired w = Inr (p, w1)
      \<and> os_rename (rename_error env) (disk w1) (joinpath root name) p = Inl cause
    \<longrightarrow> rename_dir env folder_map False root name (c, w)
          = (None, c + 1, after_failure ''folder'' '' Folder: '' (joinpath root name) p cause w1)
        \<and> for_each (rename_dir env folder_map False root) (name # rest) (c, w)
          = for_each (rename_dir env folder_map False root) rest
              (c + 1, after_failure ''folder'' '' Folder: '' (joinpath root name) p cause w1))
   \<and> error_log (after_failure kind label old_path new_path cause w1)
        = error_log w1 @ [''Failed to rename '' @ kind @ '' '' @ path_str old_path @ '' -> ''
                            @ path_name new_path @ '': '' @ cause]
   \<and> disk (after_failure kind label old_path new_path cause w1) = disk w1
   \<and> (fst (rename_items env root_directory files_csv folders_csv dry_run w0) = Inl e
        \<longrightarrow> e = ''ValueError'' \<or> (\<exists>q. stat_error env q = Some e))"
proof -
  have f: "map_of file_map (path_stem (joinpath root name)) = Some mapped
      \<and> with_name (joinpath root name) (mapped @ path_suffix (joinpath root name)) = Inr desired
      \<and> get_unique_path env (joinpath root name) desired w = Inr (p, w1)
      \<and> os_rename (rename_error env) (disk w1) (joinpath root name) p = Inl cause
    \<longrightarrow> rename_file env file_map False root name (c, w)
          = (None, c + 1, after_failure ''file'' '' File: '' (joinpath root name) p cause w1)
        \<and> for_each (rename_file env file_map False root) (name # rest) (c, w)
          = for_each (rename_file env file_map False root) rest
              (c + 1, after_failure ''file'' '' File: '' (joinpath root name) p cause w1)"
    using rename_file_failure [of file_map root name mapped desired env w p w1 cause c] by simp
  have d: "map_of folder_map name = Some mapped
      \<and> with_name (joinpath root name) mapped = Inr desired
      \<and> get_unique_path env (joinpath root name) desired w = Inr (p, w1)
      \<and> os_rename (rename_error env) (disk w1) (joinpath root name) p = Inl cause
    \<longrightarrow> rename_dir env folder_map False root name (c, w)
          = (None, c + 1, after_failure ''folder'' '' Folder: '' (joinpath root name) p cause w1)
        \<and> for_each (rename_dir env folder_map False root) (name # rest) (c, w)
          = for_each (rename_dir env folder_map False root) rest
              (c + 1, after_failure ''folder'' '' Folder: '' (joinpath root name) p cause w1)"
    using rename_dir_failure [of folder_map name mapped root desired env w p w1 cause c] by simp
  have l: "error_log (after_failure kind label old_path new_path cause w1)
        = error_log w1 @ [''Failed to rename '' @ kind @ '' '' @ path_str old_path @ '' -> ''
                            @ path_name new_path @ '': '' @ cause]"
    "disk (after_failure kind label old_path new_path cause w1) = disk w1"
    by (simp_all add: after_failure_def error_entry_def)
  have r: "fst (rename_items env root_directory files_csv folders_csv dry_run w0) = Inl e
        \<longrightarrow> e = ''ValueError'' \<or> (\<exists>q. stat_error env q = Some e)"
    using rename_items_raises [of env root_directory files_csv folders_csv dry_run w0 e]
    by (simp add: raised_before_rename_def)
  show ?thesis using f d l r by blast
qed

text \<open>
  A live run in which the operating system refuses to rename \<^verbatim>\<open>/r/a.txt\<close> and \<^verbatim>\<open>/r/sub\<close>,
  and one in which \<^verbatim>\<open>exists()\<close> raises on the destination \<^verbatim>\<open>/r/y.txt\<close>.
\<close>

definition denied :: os_env where
  "denied =
     \<lparr>stat_error = (\<lambda>p. None),
      rename_error = (\<lambda>src dst.
         if src = [''r'', ''a.txt''] \<or> src = [''r'', ''sub'']
         then Some ''[Errno 13] Permission denied'' else None)\<rparr>"

definition unreadable :: os_env where
  "unreadable =
     \<lparr>stat_error = (\<lambda>p. if p = [''r'', ''y.txt''] then Some ''[Errno 13] Permission denied'' else None),
      rename_error = (\<lambda>src dst. None)\<rparr>"

definition denied_tree :: fsnode where
  "denied_tree = Dir [(''r'', Dir [(''a.txt'', File), (''b.txt'', File), (''sub'', Dir [])])]"

definition denied_files :: "(string \<times> string) list" where
  "denied_files = build_map [(PStr ''a'', PStr ''x''), (PStr ''b'', PStr ''y'')]"

definition denied_folders :: "(string \<times> string) list" where
  "denied_folders = build_map [(PStr ''sub'', PStr ''new'')]"

definition denied_run :: "(string + nat \<times> nat) \<times> world" where
  "denied_run =
     rename_items denied [''r''] [(PStr ''a'', PStr ''x''), (PStr ''b'', PStr ''y'')]
       [(PStr ''sub'', PStr ''new'')] False (module_init denied_tree)"

definition unreadable_run :: "(string + nat \<times> nat) \<times> world" where
  "unreadable_run =
     rename_items unreadable [''r''] [(PStr ''a'', PStr ''x''), (PStr ''b'', PStr ''y'')]
       [(PStr ''sub'', PStr ''new'')] False (module_init denied_tree)"

theorem failed_rename_counted_logged_skipped_witness:
  "os_rename (rename_error denied) denied_tree [''r'', ''a.txt''] [''r'', ''x.txt''] = Inl ''[Errno 13] Permission denied''
   \<and> rename_file denied denied_files False [''r''] ''a.txt'' (0, module_init denied_tree)
       = (None, 1,
          after_failure ''file'' '' File: '' [''r'', ''a.txt''] [''r'', ''x.txt'']
            ''[Errno 13] Permission denied''
            ((module_init denied_tree)\<lparr>reserved_paths := {|[''r'', ''x.txt'']|}\<rparr>))
   \<and> os_rename (rename_error denied) denied_tree [''r'', ''sub''] [''r'', ''new''] = Inl ''[Errno 13] Permission denied''
   \<and> rename_dir denied denied_folders False [''r''] ''sub'' (0, module_init denied_tree)
       = (None, 1,
          after_failure ''folder'' '' Folder: '' [''r'', ''sub''] [''r'', ''new'']
            ''[Errno 13] Permission denied''
            ((module_init denied_tree)\<lparr>reserved_paths := {|[''r'', ''new'']|}\<rparr>))
   \<and> fst denied_run = Inr (2, 1)
   \<and> error_log (snd denied_run) =
       [''Failed to rename file /r/a.txt -> x.txt: [Errno 13] Permission denied'',
        ''Failed to rename folder /r/sub -> new: [Errno 13] Permission denied'']
   \<and> disk (snd denied_run) = Dir [(''r'', Dir [(''a.txt'', File), (''sub'', Dir []), (''y.txt'', File)])]
   \<and> fst unreadable_run = Inl ''[Errno 13] Permission denied''
   \<and> stat_error unreadable [''r'', ''y.txt''] = Some ''[Errno 13] Permission denied''
   \<and> rename_calls (snd unreadable_run) = [([''r'', ''a.txt''], [''r'', ''x.txt''])]"
proof -
  let ?w0 = "module_init denied_tree"
  let ?wf = "?w0\<lparr>reserved_paths := {|[''r'', ''x.txt'']|}\<rparr>"
  let ?wd = "?w0\<lparr>reserved_paths := {|[''r'', ''new'']|}\<rparr>"
  have f1: "map_of denied_files (path_stem (joinpath [''r''] ''a.txt'')) = Some ''x''"
    by code_simp
  have f2: "with_name (joinpath [''r''] ''a.txt'') (''x'' @ path_suffix (joinpath [''r''] ''a.txt''))
            = Inr [''r'', ''x.txt'']"
    by code_simp
  have f3: "get_unique_path denied (joinpath [''r''] ''a.txt'') [''r'', ''x.txt''] ?w0
            = Inr ([''r'', ''x.txt''], ?wf)"
    by code_simp
  have f4: "os_rename (rename_error denied) (disk ?wf) (joinpath [''r''] ''a.txt'') [''r'', ''x.txt'']
            = Inl ''[Errno 13] Permission denied''"
    by code_simp
  have d1: "map_of denied_folders ''sub'' = Some ''new''"
    by code_simp
  have d2: "with_name (joinpath [''r''] ''sub'') ''new'' = Inr [''r'', ''new'']"
    by code_simp
  have d3: "get_unique_path denied (joinpath [''r''] ''sub'') [''r'', ''new''] ?w0
            = Inr ([''r'', ''new''], ?wd)"
    by code_simp
  have d4: "os_rename (rename_error denied) (disk ?wd) (joinpath [''r''] ''sub'') [''r'', ''new'']
            = Inl ''[Errno 13] Permission denied''"
    by code_simp
  have j: "joinpath [''r''] ''a.txt'' = [''r'', ''a.txt'']" "joinpath [''r''] ''sub'' = [''r'', ''sub'']"
    by (simp_all add: joinpath_def)
  have dk: "disk ?wf = denied_tree" "disk ?wd = denied_tree"
    by (simp_all add: module_init_def)
  have run: "fst denied_run = Inr (2, 1)"
    "error_log (snd denied_run) =
       [''Failed to rename file /r/a.txt -> x.txt: [Errno 13] Permission denied'',
        ''Failed to rename folder /r/sub -> new: [Errno 13] Permission denied'']"
    "disk (snd denied_run) = Dir [(''r'', Dir [(''a.txt'', File), (''sub'', Dir []), (''y.txt'', File)])]"
    by code_simp+
  note inst_f = failed_rename_counted_logged_skipped
      [where file_map = denied_files and root = "[''r'']" and name = "''a.txt''" and mapped = "''x''"
        and desired = "[''r'', ''x.txt'']" and w = ?w0 and p = "[''r'', ''x.txt'']" and ?w1.0 = ?wf
        and env = denied and cause = "''[Errno 13] Permission denied''" and c = 0]
  note inst_d = failed_rename_counted_logged_skipped
      [where folder_map = denied_folders and root = "[''r'']" and name = "''sub''" and mapped = "''new''"
        and desired = "[''r'', ''new'']" and w = ?w0 and p = "[''r'', ''new'']" and ?w1.0 = ?wd
        and env = denied and cause = "''[Errno 13] Permission denied''" and c = 0]
  have a: "rename_file denied denied_files False [''r''] ''a.txt'' (0, ?w0)
       = (None, 1, after_failure ''file'' '' File: '' [''r'', ''a.txt''] [''r'', ''x.txt'']
            ''[Errno 13] Permission denied'' ?wf)"
    using inst_f f1 f2 f3 f4 unfolding j by simp
  have b: "rename_dir denied denied_folders False [''r''] ''sub'' (0, ?w0)
       = (None, 1, after_failure ''folder'' '' Folder: '' [''r'', ''sub''] [''r'', ''new'']
            ''[Errno 13] Permission denied'' ?wd)"
    using inst_d d1 d2 d3 d4 unfolding j by simp
  have u: "fst unreadable_run = Inl ''[Errno 13] Permission denied''"
    "stat_error unreadable [''r'', ''y.txt''] = Some ''[Errno 13] Permission denied''"
    "rename_calls (snd unreadable_run) = [([''r'', ''a.txt''], [''r'', ''x.txt''])]"
    by code_simp+
  show ?thesis using a b f4 d4 run u unfolding j dk by simp
qed

text \<open>Stem and suffix make up the name; a name without a dot has no suffix.\<close>

lemma rfind_None: "rfind c s = None \<longleftrightarrow> c \<notin> set s"
  by (induction s) (auto split: option.splits)

lemma path_stem_suffix: "path_stem p @ path_suffix p = path_name p"
  by (simp add: path_stem_def path_suffix_def Let_def split: option.splits)

lemma path_stem_no_dot:
  "CHR ''.'' \<notin> set (path_name p) \<Longrightarrow> path_stem p = path_name p \<and> path_suffix p = []"
  using rfind_None [of "CHR ''.''" "path_name p"]
  by (simp add: path_stem_def path_suffix_def Let_def)

text \<open>
  A directory \<^verbatim>\<open>/r\<close> with the folders \<^verbatim>\<open>Draft\<close> and \<^verbatim>\<open>Release.2024\<close>, and the folder table
  \<^verbatim>\<open>Draft,Release.2024\<close>.
\<close>

definition dotted_folder_tree :: fsnode where
  "dotted_folder_tree = Dir [(''r'', Dir [(''Draft'', Dir []), (''Release.2024'', Dir [])])]"

definition dotted_folder_run :: "(string + nat \<times> nat) \<times> world" where
  "dotted_folder_run =
     rename_items no_fault [''r''] [] [(PStr ''Draft'', PStr ''Release.2024'')] False
       (module_init dotted_folder_tree)"

text \<open>
  Claim C8 says that for a directory the counter is appended to the full name. The code
  splits every destination at the last dot of its name, files and folders alike: the
  folder \<^verbatim>\<open>Draft\<close>, mapped to the existing \<^verbatim>\<open>Release.2024\<close>, becomes \<^verbatim>\<open>Release_1.2024\<close> and not
  \<^verbatim>\<open>Release.2024_1\<close>.
\<close>

theorem folder_counter_before_last_dot:
  "get_unique_path no_fault [''r'', ''Draft''] [''r'', ''Release.2024''] (module_init dotted_folder_tree)
     = Inr ([''r'', ''Release_1.2024''],
            (module_init dotted_folder_tree)
              \<lparr>conflict_log := [''Renaming: /r/Draft -> Release_1.2024 to avoid conflict''],
               reserved_paths := {|[''r'', ''Release_1.2024'']|}\<rparr>)
   \<and> rename_calls (snd dotted_folder_run) = [([''r'', ''Draft''], [''r'', ''Release_1.2024''])]
   \<and> conflict_log (snd dotted_folder_run)
       = [''Renaming: /r/Draft -> Release_1.2024 to avoid conflict'']
   \<and> disk (snd dotted_folder_run)
       = Dir [(''r'', Dir [(''Release.2024'', Dir []), (''Release_1.2024'', Dir [])])]"
  by code_simp


section \<open>Order of the walk\<close>

text \<open>In a well-formed tree the entries of a directory have different names.\<close>

fun wf_node :: "fsnode \<Rightarrow> bool" where
  "wf_node File = True"
| "wf_node (Dir es) = (distinct (map fst es) \<and> (\<forall>e \<in> set es. wf_node (snd e)))"

text \<open>
  A sequence of paths is bottom-up when no path is followed, later in the sequence, by a
  path lying strictly below it.
\<close>

fun bottom_up :: "path list \<Rightarrow> bool" where
  "bottom_up [] = True"
| "bottom_up (y # zs) = (list_all (\<lambda>z. \<not> strict_prefix y z) zs \<and> bottom_up zs)"

text \<open>The paths that the body of the walk loop handles for one triple, in order.\<close>

fun visits :: "path \<times> string list \<times> string list \<Rightarrow> path list" where
  "visits (root, dirs, files) = map (joinpath root) files @ map (joinpath root) dirs"

lemma bottom_up_append:
  "bottom_up (xs @ ys) \<longleftrightarrow>
     bottom_up xs \<and> bottom_up ys \<and> (\<forall>x \<in> set xs. \<forall>y \<in> set ys. \<not> strict_prefix x y)"
  by (induction xs) (auto simp: list_all_iff)

lemma bottom_up_same_length:
  "(\<forall>x \<in> set xs. length x = n) \<Longrightarrow> bottom_up xs"
proof (induction xs)
  case Nil
  then show ?case by simp
next
  case (Cons y zs)
  have "\<And>z. z \<in> set zs \<Longrightarrow> \<not> strict_prefix y z"
  proof
    fix z assume "z \<in> set zs" and sp: "strict_prefix y z"
    then have "length y = length z" using Cons.prems by simp
    moreover have "length y < length z" using sp by (auto simp: strict_prefix_def prefix_def)
    ultimately show False by simp
  qed
  then show ?case using Cons by (simp add: list_all_iff)
qed

lemma bottom_up_subseq: "subseq xs ys \<Longrightarrow> bottom_up ys \<Longrightarrow> bottom_up xs"
proof (induction rule: list_emb.induct)
  case (list_emb_Nil ys)
  then show ?case by simp
next
  case (list_emb_Cons xs ys y)
  then show ?case by simp
next
  case (list_emb_Cons2 x y xs ys)
  have sub: "\<And>z. z \<in> set xs \<Longrightarrow> z \<in> set ys"
    using list_emb_set [OF \<open>subseq xs ys\<close>] by blast
  have xy: "x = y" using list_emb_Cons2.hyps by simp
  have "list_all (\<lambda>z. \<not> strict_prefix y z) ys" and "bottom_up ys"
    using list_emb_Cons2.prems by simp_all
  then have "list_all (\<lambda>z. \<not> strict_prefix x z) xs" and "bottom_up xs"
    using sub xy list_emb_Cons2.IH by (simp_all add: list_all_iff)
  then show ?case by simp
qed

lemma walk_visits_below:
  "x \<in> set (concat (map visits (os_walk dirpath n))) \<Longrightarrow>
   prefix dirpath x \<and> length dirpath < length x"
proof (induction dirpath n arbitrary: x rule: os_walk.induct)
  case (1 dirpath)
  then show ?case by simp
next
  case (2 dirpath es)
  from "2.prems" consider
      (child) e where "e \<in> set es" "x \<in> set (concat (map visits (os_walk (dirpath @ [fst e]) (snd e))))"
    | (level) m where "x = joinpath dirpath m"
    by auto
  then show ?case
  proof cases
    case child
    from "2.IH" [OF child] show ?thesis by (auto simp: prefix_def)
  next
    case level
    then show ?thesis by (simp add: joinpath_def)
  qed
qed


lemma walk_visits_bottom_up:
  "wf_node n \<Longrightarrow> bottom_up (concat (map visits (os_walk dirpath n)))"
proof (induction dirpath n rule: os_walk.induct)
  case (1 dirpath)
  then show ?case by simp
next
  case (2 dirpath es)
  let ?V = "\<lambda>e. concat (map visits (os_walk (dirpath @ [fst e]) (snd e)))"
  let ?level = "visits (dirpath, map fst (filter (\<lambda>e. is_dir (snd e)) es),
                              map fst (filter (\<lambda>e. \<not> is_dir (snd e)) es))"
  have each: "\<And>e. e \<in> set es \<Longrightarrow> bottom_up (?V e)"
    using "2.IH" "2.prems" by simp
  have dist: "distinct (map fst es)" using "2.prems" by simp
  have children: "\<And>fs. set fs \<subseteq> set es \<Longrightarrow> distinct (map fst fs) \<Longrightarrow> bottom_up (concat (map ?V fs))"
  proof -
    fix fs show "set fs \<subseteq> set es \<Longrightarrow> distinct (map fst fs) \<Longrightarrow> bottom_up (concat (map ?V fs))"
    proof (induction fs)
      case Nil
      then show ?case by simp
    next
      case (Cons e fs)
      have cross: "\<forall>x \<in> set (?V e). \<forall>y \<in> set (concat (map ?V fs)). \<not> strict_prefix x y"
      proof (intro ballI notI)
        fix x y assume x: "x \<in> set (?V e)" and y: "y \<in> set (concat (map ?V fs))"
          and sp: "strict_prefix x y"
        from y obtain e' where e': "e' \<in> set fs" "y \<in> set (?V e')" by auto
        have px: "prefix (dirpath @ [fst e]) x" using walk_visits_below [OF x] by simp
        have py: "prefix (dirpath @ [fst e']) y" using walk_visits_below [OF e'(2)] by simp
        have "prefix (dirpath @ [fst e]) y" using px sp by (auto simp: strict_prefix_def)
        then obtain u where u: "y = (dirpath @ [fst e]) @ u" by (auto simp: prefix_def)
        from py obtain v where v: "y = (dirpath @ [fst e']) @ v" by (auto simp: prefix_def)
        from u v have "fst e = fst e'" by simp
        with e'(1) Cons.prems(2) show False by force
      qed
      show ?case
        using Cons each cross by (simp add: bottom_up_append)
    qed
  qed
  have c: "bottom_up (concat (map ?V es))" using children [of es] dist by simp
  have l: "bottom_up ?level"
    by (rule bottom_up_same_length [where n = "Suc (length dirpath)"]) (auto simp: joinpath_def)
  have cross: "\<forall>x \<in> set (concat (map ?V es)). \<forall>y \<in> set ?level. \<not> strict_prefix x y"
  proof (intro ballI notI)
    fix x y assume x: "x \<in> set (concat (map ?V es))" and y: "y \<in> set ?level" and sp: "strict_prefix x y"
    from x obtain e where "e \<in> set es" "x \<in> set (?V e)" by auto
    then have "length (dirpath @ [fst e]) < length x" using walk_visits_below by blast
    moreover have "length y = Suc (length dirpath)" using y by (auto simp: joinpath_def)
    moreover have "length x < length y" using sp by (auto simp: strict_prefix_def prefix_def)
    ultimately show False by simp
  qed
  have flat: "\<And>fs. concat (concat (map (\<lambda>e. map visits (os_walk (dirpath @ [fst e]) (snd e))) fs))
                 = concat (map ?V fs)"
  proof -
    fix fs show "concat (concat (map (\<lambda>e. map visits (os_walk (dirpath @ [fst e]) (snd e))) fs))
                 = concat (map ?V fs)"
      by (induction fs) simp_all
  qed
  have "concat (map visits (os_walk dirpath (Dir es))) = concat (map ?V es) @ ?level"
    using flat [of es] by (simp add: map_concat comp_def)
  then show ?case using c l cross by (simp only: bottom_up_append)
qed

lemma bottom_up_nth:
  "bottom_up xs \<Longrightarrow> i < j \<Longrightarrow> j < length xs \<Longrightarrow> \<not> strict_prefix (xs ! i) (xs ! j)"
proof (induction xs arbitrary: i j)
  case Nil
  then show ?case by simp
next
  case (Cons y zs)
  show ?case
  proof (cases i)
    case 0
    then obtain j' where j': "j = Suc j'" "j' < length zs" using Cons.prems by (cases j) auto
    then have "zs ! j' \<in> set zs" by simp
    then have "\<not> strict_prefix y (zs ! j')" using Cons.prems(1) by (simp add: list_all_iff)
    then show ?thesis using 0 j' by simp
  next
    case (Suc i')
    then obtain j' where j': "j = Suc j'" "i' < j'" "j' < length zs" using Cons.prems by (cases j) auto
    then show ?thesis using Cons.IH [of i' j'] Cons.prems(1) Suc by simp
  qed
qed

lemma wf_node_lookup: "wf_node t \<Longrightarrow> fs_lookup t p = Some n \<Longrightarrow> wf_node n"
proof (induction t p rule: fs_lookup.induct)
  case (1 n')
  then show ?case by simp
next
  case (2 c cs)
  then show ?case by simp
next
  case (3 es c cs)
  from "3.prems"(2) obtain m where m: "map_of es c = Some m" "fs_lookup m cs = Some n"
    by (auto split: option.splits)
  then have "(c, m) \<in> set es" by (simp add: map_of_SomeD)
  then have "wf_node m" using "3.prems"(1) by auto
  then show ?case using "3.IH" m by simp
qed

lemma for_each_trace:
  assumes "for_each body xs s = (r, s')"
    and "\<And>x s r s'. body x s = (r, s') \<Longrightarrow>
            \<exists>cs. tr s' = tr s @ cs \<and> subseq (map fst cs) (g x)"
  shows "\<exists>cs. tr s' = tr s @ cs \<and> subseq (map fst cs) (concat (map g xs))"
  using assms(1)
proof (induction xs arbitrary: s)
  case Nil
  then show ?case by simp
next
  case (Cons x xs)
  obtain r1 s1 where b: "body x s = (r1, s1)" by (cases "body x s")
  from assms(2) [OF b] obtain cs1 where c1: "tr s1 = tr s @ cs1" "subseq (map fst cs1) (g x)"
    by blast
  show ?case
  proof (cases r1)
    case None
    then have "for_each body xs s1 = (r, s')" using Cons.prems b by simp
    from Cons.IH [OF this] obtain cs2 where c2: "tr s' = tr s1 @ cs2"
        "subseq (map fst cs2) (concat (map g xs))" by blast
    have "tr s' = tr s @ (cs1 @ cs2)" using c1 c2 by simp
    moreover have "subseq (map fst (cs1 @ cs2)) (concat (map g (x # xs)))"
      using c1(2) c2(2) by (simp add: list_emb_append_mono)
    ultimately show ?thesis by blast
  next
    case (Some e)
    then have "s' = s1" using Cons.prems b by simp
    moreover have "subseq (map fst cs1) (concat (map g (x # xs)))"
      using c1(2) by (simp add: subseq_rev_drop_many)
    ultimately show ?thesis using c1(1) by blast
  qed
qed

lemma entry_action_trace:
  assumes "get_unique_path env old desired w = Inr (p, w1)"
  shows "\<exists>cs. rename_calls (entry_action env dry_run kind label old p w1) = rename_calls w @ cs
           \<and> subseq (map fst cs) [old]"
proof -
  have "rename_calls (entry_action env dry_run kind label old p w1)
        = rename_calls w @ (if dry_run then [] else [(old, p)])"
    using get_unique_path_fresh(6) [OF assms] by (simp add: entry_action_calls)
  moreover have "subseq (map fst (if dry_run then [] else [(old, p)])) [old]" by simp
  ultimately show ?thesis by blast
qed

lemma rename_file_trace:
  assumes "rename_file env file_map dry_run root name s = (r, s')"
  shows "\<exists>cs. rename_calls (snd s') = rename_calls (snd s) @ cs
           \<and> subseq (map fst cs) [joinpath root name]"
proof -
  from rename_file_cases [of env file_map dry_run root name "fst s" "snd s" r "fst s'" "snd s'"] assms
  consider "snd s' = snd s"
    | desired p w1 where "get_unique_path env (joinpath root name) desired (snd s) = Inr (p, w1)"
        "snd s' = entry_action env dry_run ''file'' '' File: '' (joinpath root name) p w1"
    by auto
  then show ?thesis
  proof cases
    case 1
    then show ?thesis by (intro exI [of _ "[]"]) simp
  next
    case 2
    then show ?thesis using entry_action_trace by metis
  qed
qed

lemma rename_dir_trace:
  assumes "rename_dir env folder_map dry_run root name s = (r, s')"
  shows "\<exists>cs. rename_calls (snd s') = rename_calls (snd s) @ cs
           \<and> subseq (map fst cs) [joinpath root name]"
proof -
  from rename_dir_cases [of env folder_map dry_run root name "fst s" "snd s" r "fst s'" "snd s'"] assms
  consider "snd s' = snd s"
    | desired p w1 where "get_unique_path env (joinpath root name) desired (snd s) = Inr (p, w1)"
        "snd s' = entry_action env dry_run ''folder'' '' Folder: '' (joinpath root name) p w1"
    by auto
  then show ?thesis
  proof cases
    case 1
    then show ?thesis by (intro exI [of _ "[]"]) simp
  next
    case 2
    then show ?thesis using entry_action_trace by metis
  qed
qed

lemma concat_singletons: "concat (map (\<lambda>x. [f x]) xs) = map f xs"
  by (induction xs) simp_all

lemma rename_level_trace:
  assumes "rename_level env file_map folder_map dry_run triple s = (r, s')"
  shows "\<exists>cs. rename_calls (snd s') = rename_calls (snd s) @ cs
           \<and> subseq (map fst cs) (visits triple)"
proof -
  obtain root dirs files where t: "triple = (root, dirs, files)" by (cases triple)
  obtain fc dc w where s: "s = ((fc, dc), w)" by (cases s) auto
  obtain r1 fc1 w1 where f1: "for_each (rename_file env file_map dry_run root) files (fc, w) = (r1, fc1, w1)"
    by (cases "for_each (rename_file env file_map dry_run root) files (fc, w)")
  from for_each_trace [OF f1, where tr = "\<lambda>s. rename_calls (snd s)" and g = "\<lambda>name. [joinpath root name]"]
    rename_file_trace
  obtain cs1 where c1: "rename_calls w1 = rename_calls w @ cs1"
      "subseq (map fst cs1) (map (joinpath root) files)"
    by (auto simp: concat_singletons)
  show ?thesis
  proof (cases r1)
    case (Some e)
    then have "snd s' = w1" using assms f1 unfolding rename_level_def t s by auto
    moreover have "subseq (map fst cs1) (visits triple)"
      using c1(2) unfolding t by (simp add: subseq_rev_drop_many)
    ultimately show ?thesis using c1(1) s by auto
  next
    case None
    obtain r2 dc2 w2 where f2: "for_each (rename_dir env folder_map dry_run root) dirs (dc, w1) = (r2, dc2, w2)"
      by (cases "for_each (rename_dir env folder_map dry_run root) dirs (dc, w1)")
    from for_each_trace [OF f2, where tr = "\<lambda>s. rename_calls (snd s)" and g = "\<lambda>name. [joinpath root name]"]
      rename_dir_trace
    obtain cs2 where c2: "rename_calls w2 = rename_calls w1 @ cs2"
        "subseq (map fst cs2) (map (joinpath root) dirs)"
      by (auto simp: concat_singletons)
    have "snd s' = w2" using assms f1 f2 None unfolding rename_level_def t s by auto
    moreover have "rename_calls w2 = rename_calls w @ (cs1 @ cs2)" using c1 c2 by simp
    moreover have "subseq (map fst (cs1 @ cs2)) (visits triple)"
      using c1(2) c2(2) unfolding t by (simp add: list_emb_append_mono)
    ultimately show ?thesis using s by auto
  qed
qed

lemma rename_items_trace:
  "\<exists>cs. rename_calls (snd (rename_items env root_directory files_csv folders_csv dry_run w))
          = rename_calls w @ cs
      \<and> subseq (map fst cs) (concat (map visits (walk_bottom_up (disk w) root_directory)))"
proof -
  define w1 where "w1 = print (mode_label dry_run @ '' Loaded '' @ str_nat (length (build_map files_csv))
                        @ '' file mappings and '' @ str_nat (length (build_map folders_csv))
                        @ '' folder mappings.'') w"
  have d: "disk w1 = disk w" and rc: "rename_calls w1 = rename_calls w"
    by (simp_all add: w1_def print_def)
  obtain r cs w2 where l: "for_each (rename_level env (build_map files_csv) (build_map folders_csv) dry_run)
                (walk_bottom_up (disk w1) root_directory) ((0, 0), w1) = (r, cs, w2)"
    by (cases "for_each (rename_level env (build_map files_csv) (build_map folders_csv) dry_run)
                (walk_bottom_up (disk w1) root_directory) ((0, 0), w1)")
  from for_each_trace [OF l, where tr = "\<lambda>s. rename_calls (snd s)" and g = visits] rename_level_trace
  obtain calls where c: "rename_calls w2 = rename_calls w1 @ calls"
      "subseq (map fst calls) (concat (map visits (walk_bottom_up (disk w1) root_directory)))"
    by auto
  have eq: "rename_items env root_directory files_csv folders_csv dry_run w =
        (case r of Some e \<Rightarrow> (Inl e, w2) | None \<Rightarrow> (Inr cs, print_summary w2))"
    unfolding rename_items_def Let_def w1_def [symmetric] l by (cases r) simp_all
  have "rename_calls (snd (rename_items env root_directory files_csv folders_csv dry_run w))
        = rename_calls w2"
    unfolding eq by (cases r) (simp_all add: print_summary_def)
  then show ?thesis using c d rc by auto
qed

lemma walk_bottom_up_order:
  assumes "wf_node t"
  shows "bottom_up (concat (map visits (walk_bottom_up t root_directory)))"
proof (cases "realpath t [] root_directory")
  case None
  then show ?thesis by (simp add: walk_bottom_up_def)
next
  case (Some r)
  show ?thesis
  proof (cases "fs_lookup t r")
    case None
    then show ?thesis using Some by (simp add: walk_bottom_up_def)
  next
    case (Some n)
    then have "wf_node n" using assms wf_node_lookup by blast
    then show ?thesis
      using Some \<open>realpath t [] root_directory = Some r\<close>
      by (simp add: walk_bottom_up_def walk_visits_bottom_up)
  qed
qed

text \<open>
  The scenario of the specification: the folder \<^verbatim>\<open>OldFolder\<close> holds \<^verbatim>\<open>doc.pdf\<close>; the tables
  are \<^verbatim>\<open>doc,final\<close> for files and \<^verbatim>\<open>OldFolder,NewFolder\<close> for folders.
\<close>

definition nested_tree :: fsnode where
  "nested_tree = Dir [(''r'', Dir [(''OldFolder'', Dir [(''doc.pdf'', File)])])]"

definition nested_run :: "(string + nat \<times> nat) \<times> world" where
  "nested_run =
     rename_items no_fault [''r''] [(PStr ''doc'', PStr ''final'')]
       [(PStr ''OldFolder'', PStr ''NewFolder'')] False (module_init nested_tree)"

text \<open>
  Claim C2. In a run on a file system whose directories list each name once, the rename
  calls come bottom-up: once the rename of a path has been attempted, no rename of a path
  strictly below it is attempted later. Equivalently, whenever the run attempts a rename
  on a directory and a rename on one of its descendants, the descendant's comes first.
\<close>

theorem renames_bottom_up:
  assumes "wf_node (disk w)"
  shows "\<exists>cs. rename_calls (snd (rename_items env root_directory files_csv folders_csv dry_run w))
               = rename_calls w @ cs
           \<and> bottom_up (map fst cs)
           \<and> (\<forall>i j. i < length cs \<and> j < length cs \<and> strict_prefix (fst (cs ! i)) (fst (cs ! j))
                  \<longrightarrow> j < i)"
proof -
  from rename_items_trace [of env root_directory files_csv folders_csv dry_run w]
  obtain cs where cs: "rename_calls (snd (rename_items env root_directory files_csv folders_csv dry_run w))
               = rename_calls w @ cs"
      "subseq (map fst cs) (concat (map visits (walk_bottom_up (disk w) root_directory)))"
    by blast
  have bu: "bottom_up (map fst cs)"
    using cs(2) walk_bottom_up_order [OF assms] by (rule bottom_up_subseq)
  have ord: "\<forall>i j. i < length cs \<and> j < length cs \<and> strict_prefix (fst (cs ! i)) (fst (cs ! j))
                  \<longrightarrow> j < i"
  proof (intro allI impI)
    fix i j
    assume a: "i < length cs \<and> j < length cs \<and> strict_prefix (fst (cs ! i)) (fst (cs ! j))"
    show "j < i"
    proof (rule ccontr)
      assume "\<not> j < i"
      then consider "i = j" | "i < j" by linarith
      then show False
      proof cases
        case 1
        then show ?thesis using a by simp
      next
        case 2
        then have "\<not> strict_prefix (map fst cs ! i) (map fst cs ! j)"
          using bottom_up_nth [OF bu, of i j] a by simp
        then show ?thesis using a by simp
      qed
    qed
  qed
  show ?thesis using cs(1) bu ord by blast
qed

theorem renames_bottom_up_witness:
  "wf_node (disk (module_init nested_tree))
   \<and> rename_calls (snd nested_run) =
       [([''r'', ''OldFolder'', ''doc.pdf''], [''r'', ''OldFolder'', ''final.pdf'']),
        ([''r'', ''OldFolder''], [''r'', ''NewFolder''])]
   \<and> bottom_up (map fst (rename_calls (snd nested_run)))
   \<and> disk (snd nested_run) = Dir [(''r'', Dir [(''NewFolder'', Dir [(''final.pdf'', File)])])]"
proof -
  have h: "wf_node (disk (module_init nested_tree))" by code_simp
  have c: "rename_calls (snd nested_run) =
       [([''r'', ''OldFolder'', ''doc.pdf''], [''r'', ''OldFolder'', ''final.pdf'']),
        ([''r'', ''OldFolder''], [''r'', ''NewFolder''])]"
    by code_simp
  have d: "disk (snd nested_run) = Dir [(''r'', Dir [(''NewFolder'', Dir [(''final.pdf'', File)])])]"
    by code_simp
  have e: "rename_calls (module_init nested_tree) = []" by (simp add: module_init_def)
  from renames_bottom_up [OF h, of no_fault "[''r'']" "[(PStr ''doc'', PStr ''final'')]"
      "[(PStr ''OldFolder'', PStr ''NewFolder'')]" False]
  have "bottom_up (map fst (rename_calls (snd nested_run)))"
    unfolding nested_run_def [symmetric] e by auto
  then show ?thesis using h c d by simp
qed

end
